theory Spec2Isabelle
  imports Main "HOL-Library.Sublist" "HOL-Library.Multiset"
begin

section \<open>Strings and the regular-expression primitives of the renderer\<close>

text \<open>
  A JavaScript string is a sequence of UTF-16 code units. The model uses \<open>string\<close>;
  a \<open>char\<close> stands for the code unit with the same number, so the model covers the
  strings whose code units are below 256. Every character the source's regular
  expressions name is in that range.
\<close>

definition LF :: char where
  "LF = CHR 0x0A"

definition CR :: char where
  "CR = CHR 0x0D"

definition backtick :: char where
  "backtick = CHR 0x60"

text \<open>
  The line terminators of ECMAScript below 256: the characters that \<open>.\<close> does not
  match and around which \<open>^\<close> and \<open>$\<close> match under the \<open>m\<close> flag.
\<close>

definition isLineTerminator :: "char \<Rightarrow> bool" where
  "isLineTerminator c \<longleftrightarrow> c = LF \<or> c = CR"

text \<open>The white space that \<open>String.prototype.trim\<close> strips (code units below 256).\<close>

definition isWhiteSpace :: "char \<Rightarrow> bool" where
  "isWhiteSpace c \<longleftrightarrow>
     c = CHR 0x09 \<or> c = CHR 0x0A \<or> c = CHR 0x0B \<or> c = CHR 0x0C \<or> c = CHR 0x0D \<or>
     c = CHR 0x20 \<or> c = CHR 0xA0"

text \<open>The class \<open>\d\<close>.\<close>

definition isDigit :: "char \<Rightarrow> bool" where
  "isDigit c \<longleftrightarrow> c \<in> set ''0123456789''"

definition trim :: "string \<Rightarrow> string" where
  "trim s = rev (dropWhile isWhiteSpace (rev (dropWhile isWhiteSpace s)))"

text \<open>
  \<open>lazyUntil ok d s\<close> is the lazy quantifier \<open>X*?\<close> followed by the literal \<open>d\<close>,
  matched at the start of \<open>s\<close>, where \<open>ok\<close> is the character class \<open>X\<close>: the
  shortest run of \<open>ok\<close> characters after which \<open>d\<close> stands. The result is the run.
\<close>

fun lazyUntil :: "(char \<Rightarrow> bool) \<Rightarrow> string \<Rightarrow> string \<Rightarrow> string option" where
  "lazyUntil ok d [] = (if d = [] then Some [] else None)"
| "lazyUntil ok d (c # cs) =
     (if prefix d (c # cs) then Some []
      else if ok c then map_option ((#) c) (lazyUntil ok d cs)
      else None)"

text \<open>
  \<open>greedyUntil d s\<close> is the greedy \<open>.*\<close> followed by the literal \<open>d\<close> inside a
  string \<open>s\<close> without line terminators: the offset of the last place where \<open>d\<close> stands.
\<close>

fun greedyUntil :: "string \<Rightarrow> string \<Rightarrow> nat option" where
  "greedyUntil d [] = (if d = [] then Some 0 else None)"
| "greedyUntil d (c # cs) =
     (case greedyUntil d cs of
        Some k \<Rightarrow> Some (Suc k)
      | None \<Rightarrow> if prefix d (c # cs) then Some 0 else None)"

text \<open>
  \<open>String.prototype.replace\<close> with a global regular expression: the scan tries a
  match at each position from the left; \<open>m\<close> gives the replacement text and the
  length of the match at the start of the remaining input. After a match the scan
  goes on behind it. None of the expressions of the source matches the empty string.
\<close>

fun replaceAll :: "(string \<Rightarrow> (string \<times> nat) option) \<Rightarrow> string \<Rightarrow> string" where
  "replaceAll m [] = []"
| "replaceAll m (c # cs) =
     (case m (c # cs) of
        None \<Rightarrow> c # replaceAll m cs
      | Some (rep, n) \<Rightarrow> rep @ replaceAll m (drop (n - 1) cs))"

text \<open>
  A global replace whose expression is anchored as \<open>^...$\<close> under the \<open>m\<close> flag
  matches whole lines only: \<open>mapLines f\<close> applies \<open>f\<close> to every line, the line
  terminators staying where they are.
\<close>

function mapLines :: "(string \<Rightarrow> string) \<Rightarrow> string \<Rightarrow> string" where
  "mapLines f s =
     (case dropWhile (\<lambda>c. \<not> isLineTerminator c) s of
        [] \<Rightarrow> f s
      | t # r \<Rightarrow> f (takeWhile (\<lambda>c. \<not> isLineTerminator c) s) @ t # mapLines f r)"
  by pat_completeness auto
termination
proof (relation "measure (\<lambda>(f, s). length s)")
  show "wf (measure (\<lambda>(f, s). length s))" by simp
next
  fix f :: "string \<Rightarrow> string" and s :: string and t r
  assume "dropWhile (\<lambda>c. \<not> isLineTerminator c) s = t # r"
  then have "length (t # r) \<le> length s"
    by (metis length_dropWhile_le)
  then show "((f, r), (f, s)) \<in> measure (\<lambda>(f, s). length s)" by simp
qed

section \<open>escapeHtml\<close>

definition escapeChar :: "char \<Rightarrow> string" where
  "escapeChar c =
     (if c = CHR ''&'' then ''&amp;''
      else if c = CHR ''<'' then ''&lt;''
      else if c = CHR ''>'' then ''&gt;''
      else if c = CHR 0x22 then ''&quot;''
      else if c = CHR 0x27 then ''&#039;''
      else [c])"

definition escapeHtml :: "string \<Rightarrow> string" where
  "escapeHtml text = concat (map escapeChar text)"

section \<open>markdownToHtml\<close>

subsection \<open>Fenced code blocks\<close>

text \<open>The decimal numeral of the template literal \<open>${codeIndex++}\<close>.\<close>

definition digitChar :: "nat \<Rightarrow> char" where
  "digitChar n = ''0123456789'' ! n"

function showNat :: "nat \<Rightarrow> string" where
  "showNat n = (if n < 10 then [digitChar n] else showNat (n div 10) @ [digitChar (n mod 10)])"
  by pat_completeness auto
termination
  by (relation "measure id") auto

definition placeholder :: "nat \<Rightarrow> string" where
  "placeholder i = ''__CODE_BLOCK_'' @ showNat i @ ''__''"

definition fence :: string where
  "fence = [backtick, backtick, backtick]"

text \<open>
  The expression \<open>```([\s\S]*?)```\<close> at the start of \<open>s\<close>: the captured group, the
  shortest text up to the next fence.
\<close>

definition matchFence :: "string \<Rightarrow> string option" where
  "matchFence s = (if prefix fence s then lazyUntil (\<lambda>c. True) fence (drop 3 s) else None)"

definition codeBlock :: "string \<Rightarrow> string" where
  "codeBlock code = ''<pre><code>'' @ escapeHtml (trim code) @ ''</code></pre>''"

text \<open>
  The first \<open>replace\<close> of the source, with its callback: every fenced block is pushed
  on \<open>codeBlocks\<close> (escaped, trimmed and wrapped) and replaced by the placeholder
  that carries \<open>codeIndex\<close>. The result is the new text and the blocks pushed.
\<close>

function extractCodeBlocks :: "nat \<Rightarrow> string \<Rightarrow> string \<times> string list" where
  "extractCodeBlocks codeIndex [] = ([], [])"
| "extractCodeBlocks codeIndex (c # cs) =
     (case matchFence (c # cs) of
        None \<Rightarrow>
          (let (out, codeBlocks) = extractCodeBlocks codeIndex cs in (c # out, codeBlocks))
      | Some code \<Rightarrow>
          (let (out, codeBlocks) =
                 extractCodeBlocks (Suc codeIndex) (drop (length code + 6) (c # cs))
           in (placeholder codeIndex @ out, codeBlock code # codeBlocks)))"
  by pat_completeness auto
termination
  by (relation "measure (\<lambda>(i, s). length s)") auto

text \<open>
  The texts that the capture group \<open>code\<close> of the expression takes in the successive
  matches of the \<open>replace\<close> above.
\<close>

function fenceCaptures :: "string \<Rightarrow> string list" where
  "fenceCaptures [] = []"
| "fenceCaptures (c # cs) =
     (case matchFence (c # cs) of
        None \<Rightarrow> fenceCaptures cs
      | Some code \<Rightarrow> code # fenceCaptures (drop (length code + 6) (c # cs)))"
  by pat_completeness auto
termination
  by (relation "measure length") auto

subsection \<open>Block-level and inline substitutions\<close>

text \<open>\<open>.replace(/^### (.*$)/gim, '<h3>$1</h3>')\<close> and its two siblings, on one line.\<close>

definition h3Line :: "string \<Rightarrow> string" where
  "h3Line l = (if prefix ''### '' l then ''<h3>'' @ drop 4 l @ ''</h3>'' else l)"

definition h2Line :: "string \<Rightarrow> string" where
  "h2Line l = (if prefix ''## '' l then ''<h2>'' @ drop 3 l @ ''</h2>'' else l)"

definition h1Line :: "string \<Rightarrow> string" where
  "h1Line l = (if prefix ''# '' l then ''<h1>'' @ drop 2 l @ ''</h1>'' else l)"

text \<open>\<open>.replace(/^---$/gm, '<hr>')\<close> on one line.\<close>

definition hrLine :: "string \<Rightarrow> string" where
  "hrLine l = (if l = ''---'' then ''<hr>'' else l)"

text \<open>\<open>.replace(/\*\*(.*?)\*\*/g, '<strong>$1</strong>')\<close>: the match at the start of \<open>s\<close>.\<close>

definition notLT :: "char \<Rightarrow> bool" where
  "notLT c \<longleftrightarrow> \<not> isLineTerminator c"

definition matchBold :: "string \<Rightarrow> (string \<times> nat) option" where
  "matchBold s =
     (if prefix ''**'' s then
        (case lazyUntil notLT ''**'' (drop 2 s) of
           None \<Rightarrow> None
         | Some x \<Rightarrow> Some (''<strong>'' @ x @ ''</strong>'', length x + 4))
      else None)"

text \<open>\<open>.replace(/\*(.*?)\*/g, '<em>$1</em>')\<close>.\<close>

definition matchItalic :: "string \<Rightarrow> (string \<times> nat) option" where
  "matchItalic s =
     (if prefix ''*'' s then
        (case lazyUntil notLT ''*'' (drop 1 s) of
           None \<Rightarrow> None
         | Some x \<Rightarrow> Some (''<em>'' @ x @ ''</em>'', length x + 2))
      else None)"

text \<open>
  \<open>.replace(/`([^`]+)`/g, '<code>$1</code>')\<close>: a backtick, the longest run of other
  characters, which must not be empty, and a backtick.
\<close>

definition matchInlineCode :: "string \<Rightarrow> (string \<times> nat) option" where
  "matchInlineCode s =
     (case s of
        [] \<Rightarrow> None
      | c # cs \<Rightarrow>
          (let x = takeWhile (\<lambda>a. a \<noteq> backtick) cs in
           if c = backtick \<and> x \<noteq> [] \<and> prefix [backtick] (drop (length x) cs)
           then Some (''<code>'' @ x @ ''</code>'', length x + 2)
           else None))"

text \<open>\<open>.replace(/^\* (.+)$/gm, '<li>$1</li>')\<close> on one line.\<close>

definition bulletLine :: "string \<Rightarrow> string" where
  "bulletLine l = (if prefix ''* '' l \<and> 2 < length l then ''<li>'' @ drop 2 l @ ''</li>'' else l)"

text \<open>\<open>.replace(/^\d+\. (.+)$/gm, '<li>$1</li>')\<close> on one line.\<close>

definition numberLine :: "string \<Rightarrow> string" where
  "numberLine l =
     (let r = dropWhile isDigit l in
      if takeWhile isDigit l \<noteq> [] \<and> prefix ''. '' r \<and> 2 < length r
      then ''<li>'' @ drop 2 r @ ''</li>'' else l)"

subsection \<open>Paragraphs\<close>

text \<open>\<open>.split('\n\n')\<close>: the separators are found from the left and do not overlap.\<close>

fun splitParas :: "string \<Rightarrow> string list" where
  "splitParas [] = [[]]"
| "splitParas [a] = [[a]]"
| "splitParas (a # b # cs) =
     (if a = LF \<and> b = LF then [] # splitParas cs
      else (let ps = splitParas (b # cs) in (a # hd ps) # tl ps))"

text \<open>The test \<open>para.match(/^<[h|l|h|u|o]/)\<close>.\<close>

definition startsWithTag :: "string \<Rightarrow> bool" where
  "startsWithTag para =
     (case para of
        a # b # r \<Rightarrow> a = CHR ''<'' \<and> b \<in> set ''h|luo''
      | _ \<Rightarrow> False)"

definition wrapPara :: "string \<Rightarrow> string" where
  "wrapPara para =
     (if startsWithTag para then para
      else if prefix ''__CODE_BLOCK_'' para then para
      else if trim para \<noteq> [] then ''<p>'' @ para @ ''</p>''
      else [])"

text \<open>\<open>.join('\n')\<close>.\<close>

fun joinLF :: "string list \<Rightarrow> string" where
  "joinLF [] = []"
| "joinLF [p] = p"
| "joinLF (p # q # ps) = p @ LF # joinLF (q # ps)"

subsection \<open>Restoring the code blocks\<close>

text \<open>
  \<open>GetSubstitution\<close> of ECMAScript for a string pattern, which has no captures: in the
  replacement text \<open>$$\<close> stands for a dollar sign, \<open>$&\<close> for the matched text, \<open>$`\<close> for
  the text before the match and \<open>$'\<close> for the text behind it; any other dollar sign
  stands for itself.
\<close>

fun getSubstitution :: "string \<Rightarrow> string \<Rightarrow> string \<Rightarrow> string \<Rightarrow> string" where
  "getSubstitution matched front back (c # d # r) =
     (if c = CHR ''$'' \<and> d = CHR ''$'' then CHR ''$'' # getSubstitution matched front back r
      else if c = CHR ''$'' \<and> d = CHR ''&'' then matched @ getSubstitution matched front back r
      else if c = CHR ''$'' \<and> d = backtick then front @ getSubstitution matched front back r
      else if c = CHR ''$'' \<and> d = CHR 0x27 then back @ getSubstitution matched front back r
      else c # getSubstitution matched front back (d # r))"
| "getSubstitution matched front back r = r"

text \<open>
  \<open>String.prototype.replace\<close> with a string pattern: only the first occurrence is
  replaced, and the replacement text goes through \<open>GetSubstitution\<close>.
\<close>

definition replaceFirst :: "string \<Rightarrow> string \<Rightarrow> string \<Rightarrow> string" where
  "replaceFirst pat rep s =
     (case lazyUntil (\<lambda>c. True) pat s of
        None \<Rightarrow> s
      | Some front \<Rightarrow>
          (let back = drop (length front + length pat) s
           in front @ getSubstitution pat front back rep @ back))"

text \<open>The \<open>forEach\<close> over \<open>codeBlocks\<close>, from index \<open>i\<close> on.\<close>

fun restoreCodeBlocks :: "nat \<Rightarrow> string list \<Rightarrow> string \<Rightarrow> string" where
  "restoreCodeBlocks i [] html = html"
| "restoreCodeBlocks i (block # blocks) html =
     restoreCodeBlocks (Suc i) blocks (replaceFirst (placeholder i) block html)"

subsection \<open>Wrapping list items\<close>

text \<open>
  One round of the group \<open><li>.*<\/li>\n?\<close> at the start of \<open>s\<close>, its length: the greedy
  \<open>.*\<close> runs to the last \<open></li>\<close> of the line, and a line feed behind it is taken.
\<close>

definition matchItem :: "string \<Rightarrow> nat option" where
  "matchItem s =
     (if prefix ''<li>'' s then
        (case greedyUntil ''</li>'' (takeWhile notLT (drop 4 s)) of
           None \<Rightarrow> None
         | Some k \<Rightarrow> Some (k + 9 + (if prefix [LF] (drop (k + 9) s) then 1 else 0)))
      else None)"

text \<open>The greedy \<open>(...)+\<close>: the length of the longest run of rounds, 0 when there is none.\<close>

function matchItems :: "string \<Rightarrow> nat" where
  "matchItems s =
     (case matchItem s of
        None \<Rightarrow> 0
      | Some n \<Rightarrow> n + matchItems (drop n s))"
  by pat_completeness auto

termination
proof (relation "measure length")
  show "wf (measure length)" by simp
next
  fix s :: string and n
  assume "matchItem s = Some n"
  then have "s \<noteq> []" and "0 < n"
    by (auto simp: matchItem_def split: if_splits option.splits)
  then show "(drop n s, s) \<in> measure length" by simp
qed

text \<open>
  \<open>html.replace(/(<li>.*<\/li>\n?)+/g, match => `<ul>${match}</ul>`)\<close>: the match at the
  start of \<open>s\<close>.
\<close>

definition matchList :: "string \<Rightarrow> (string \<times> nat) option" where
  "matchList s =
     (let n = matchItems s in
      if n = 0 then None else Some (''<ul>'' @ take n s @ ''</ul>'', n))"

subsection \<open>The converter\<close>

definition markdownToHtml :: "string \<Rightarrow> string" where
  "markdownToHtml markdown =
     (let (markdown', codeBlocks) = extractCodeBlocks 0 markdown;
          html =
            joinLF (map wrapPara (splitParas
              (mapLines numberLine
              (mapLines bulletLine
              (replaceAll matchInlineCode
              (replaceAll matchItalic
              (replaceAll matchBold
              (mapLines hrLine
              (mapLines h1Line
              (mapLines h2Line
              (mapLines h3Line markdown')))))))))));
          html' = restoreCodeBlocks 0 codeBlocks html
      in replaceAll matchList html')"

section \<open>The post registry and the navigation\<close>

record PostMetadata =
  title :: string
  filename :: string
  date :: string
  description :: string

text \<open>The registry as the source declares it.\<close>

definition initialBlogPosts :: "PostMetadata list" where
  "initialBlogPosts =
     [\<lparr>title = ''Building a Type-Safe Redis Client in OCaml'',
       filename = ''building-redis-client-ocaml.md'',
       date = ''2025-08-27'',
       description = ''Exploring OCaml'' @ [CHR 0x27] @ ''s type system by building a native Redis client with compile-time protocol correctness.''\<rparr>,
      \<lparr>title = ''Welcome to My Blog'',
       filename = ''welcome-to-my-blog.md'',
       date = ''2025-08-27'',
       description = ''My first blog post introducing what you can expect from this blog.''\<rparr>]"

subsection \<open>Dates\<close>

text \<open>
  \<open>new Date(dateStr)\<close> for the date-only form \<open>YYYY-MM-DD\<close> of the ECMAScript date time
  string format: the time value of that day's midnight in UTC, in milliseconds. How
  any other string is parsed depends on the host; the model gives \<open>None\<close> for it, the
  time value \<open>NaN\<close> of an invalid date.
\<close>

definition numVal :: "string \<Rightarrow> nat" where
  "numVal ds = foldl (\<lambda>a c. 10 * a + (of_char c - 48)) 0 ds"

definition isLeap :: "nat \<Rightarrow> bool" where
  "isLeap y \<longleftrightarrow> (y mod 4 = 0 \<and> y mod 100 \<noteq> 0) \<or> y mod 400 = 0"

definition daysInMonth :: "nat \<Rightarrow> nat \<Rightarrow> nat" where
  "daysInMonth y m =
     (if m = 2 then (if isLeap y then 29 else 28)
      else if m = 4 \<or> m = 6 \<or> m = 9 \<or> m = 11 then 30 else 31)"

text \<open>The number of the day since 1970-01-01 in the proleptic Gregorian calendar.\<close>

definition daysFromCivil :: "int \<Rightarrow> int \<Rightarrow> int \<Rightarrow> int" where
  "daysFromCivil y m d =
     (let y' = (if m \<le> 2 then y - 1 else y);
          era = y' div 400;
          yoe = y' - era * 400;
          doy = (153 * (if m > 2 then m - 3 else m + 9) + 2) div 5 + d - 1;
          doe = yoe * 365 + yoe div 4 - yoe div 100 + doy
      in era * 146097 + doe - 719468)"

definition parseDate :: "string \<Rightarrow> int option" where
  "parseDate s =
     (let y = numVal (take 4 s); m = numVal (take 2 (drop 5 s)); d = numVal (drop 8 s) in
      if length s = 10 \<and> s ! 4 = CHR ''-'' \<and> s ! 7 = CHR ''-''
         \<and> list_all isDigit (take 4 s) \<and> list_all isDigit (take 2 (drop 5 s))
         \<and> list_all isDigit (drop 8 s)
         \<and> 1 \<le> m \<and> m \<le> 12 \<and> 1 \<le> d \<and> d \<le> daysInMonth y m
      then Some (daysFromCivil (int y) (int m) (int d) * 86400000)
      else None)"

subsection \<open>Sorting the registry\<close>

text \<open>
  The comparison function \<open>(a, b) => new Date(b.date) - new Date(a.date)\<close>; \<open>None\<close> is
  \<open>NaN\<close>, which \<open>Array.prototype.sort\<close> reads as \<open>+0\<close>.
\<close>

definition compareFn :: "PostMetadata \<Rightarrow> PostMetadata \<Rightarrow> int option" where
  "compareFn a b =
     (case (parseDate (date b), parseDate (date a)) of
        (Some tb, Some ta) \<Rightarrow> Some (tb - ta)
      | _ \<Rightarrow> None)"

definition sortCompare :: "PostMetadata \<Rightarrow> PostMetadata \<Rightarrow> int" where
  "sortCompare a b = (case compareFn a b of None \<Rightarrow> 0 | Some v \<Rightarrow> v)"

text \<open>
  \<open>Array.prototype.sort\<close> is stable. For a comparison function that is a consistent
  order, as this one is on valid dates, every stable sort gives the same array; the
  model is the stable insertion sort. (With invalid dates the comparison is not
  consistent and the order ECMAScript gives is implementation-defined.)
\<close>

fun insertPost :: "PostMetadata \<Rightarrow> PostMetadata list \<Rightarrow> PostMetadata list" where
  "insertPost a [] = [a]"
| "insertPost a (b # bs) = (if sortCompare a b \<le> 0 then a # b # bs else b # insertPost a bs)"

definition sortPosts :: "PostMetadata list \<Rightarrow> PostMetadata list" where
  "sortPosts ps = foldr insertPost ps []"

subsection \<open>The page\<close>

text \<open>
  What the element \<open>blog-posts\<close> shows: the list of posts, one clickable item for each
  in the order given; a rendered article with its back button; or the message
  \<open>Error loading post.\<close>
\<close>

datatype content = PostList "PostMetadata list" | Article string | ErrorLoadingPost

text \<open>The state: the global array \<open>blogPosts\<close> and the content of the container.\<close>

record page =
  blogPosts :: "PostMetadata list"
  container :: content

text \<open>\<open>blogPosts.sort\<close> sorts the global array in place and returns that same array.\<close>

definition loadBlogPosts :: "page \<Rightarrow> page" where
  "loadBlogPosts pg =
     (let sortedPosts = sortPosts (blogPosts pg)
      in pg\<lparr>blogPosts := sortedPosts, container := PostList sortedPosts\<rparr>)"

text \<open>
  The outcome of \<open>fetch(url)\<close> followed by \<open>response.text()\<close>. \<open>fetch\<close> rejects on a
  network error only; for every HTTP status it resolves with a response. Reading the
  body may fail (\<open>None\<close>).
\<close>

datatype fetched = Rejected | Response nat "string option"

definition loadPost :: "(string \<Rightarrow> fetched) \<Rightarrow> PostMetadata \<Rightarrow> page \<Rightarrow> page" where
  "loadPost fetch post pg =
     (case fetch (''posts/'' @ filename post) of
        Response status (Some markdown) \<Rightarrow> pg\<lparr>container := Article (markdownToHtml markdown)\<rparr>
      | _ \<Rightarrow> pg\<lparr>container := ErrorLoadingPost\<rparr>)"

text \<open>\<open>p.filename.replace('.md', '')\<close>.\<close>

definition slug :: "string \<Rightarrow> string" where
  "slug name = replaceFirst ''.md'' [] name"

text \<open>\<open>checkForDirectLink\<close>; \<open>locationHash\<close> is \<open>window.location.hash\<close>.\<close>

definition checkForDirectLink :: "(string \<Rightarrow> fetched) \<Rightarrow> string \<Rightarrow> page \<Rightarrow> page" where
  "checkForDirectLink fetch locationHash pg =
     (let hash = drop 1 locationHash in
      if hash \<noteq> [] then
        (case find (\<lambda>p. slug (filename p) = hash) (blogPosts pg) of
           Some post \<Rightarrow> loadPost fetch post pg
         | None \<Rightarrow> loadBlogPosts pg)
      else loadBlogPosts pg)"

section \<open>Predicates of the specification\<close>

text \<open>Every date of the registry is a valid calendar date in the form \<open>YYYY-MM-DD\<close>.\<close>

definition validDates :: "PostMetadata list \<Rightarrow> bool" where
  "validDates ps \<longleftrightarrow> list_all (\<lambda>p. parseDate (date p) \<noteq> None) ps"

definition timeValue :: "PostMetadata \<Rightarrow> int" where
  "timeValue p = (case parseDate (date p) of Some t \<Rightarrow> t | None \<Rightarrow> 0)"

text \<open>Ordered by date descending.\<close>

definition newestFirst :: "PostMetadata list \<Rightarrow> bool" where
  "newestFirst ps \<longleftrightarrow> sorted_wrt (\<lambda>a b. timeValue b \<le> timeValue a) ps"

text \<open>
  A file name that ends in \<open>.md\<close> and in which \<open>.md\<close> stands nowhere else: its
  extension is the only occurrence.
\<close>

definition mdFileName :: "string \<Rightarrow> bool" where
  "mdFileName f \<longleftrightarrow>
     suffix ''.md'' f \<and> (\<forall>k \<in> {..< length f - 3}. \<not> prefix ''.md'' (drop k f))"

text \<open>Text in which no rule of the renderer finds its syntax: one line without asterisk,
  backtick or \<open><\<close>, that does not start like a heading, a rule, a list item or a
  placeholder and does not start with white space.\<close>

definition plainText :: "string \<Rightarrow> bool" where
  "plainText s \<longleftrightarrow>
     s \<noteq> [] \<and> list_all (\<lambda>c. c \<noteq> CHR ''*'' \<and> c \<noteq> backtick \<and> c \<noteq> CHR ''<'' \<and> notLT c) s
     \<and> hd s \<noteq> CHR ''#'' \<and> hd s \<noteq> CHR ''-'' \<and> hd s \<noteq> CHR ''_''
     \<and> \<not> isDigit (hd s) \<and> \<not> isWhiteSpace (hd s)"

text \<open>A heading title or list item without inline markup.\<close>

definition plainInline :: "string \<Rightarrow> bool" where
  "plainInline t \<longleftrightarrow>
     list_all (\<lambda>c. c \<noteq> CHR ''*'' \<and> c \<noteq> backtick \<and> c \<noteq> CHR ''<'' \<and> notLT c) t"

text \<open>
  A list-item line of the markdown source: a bullet or a number, and the content. The
  content of a valid item is not empty and has no asterisk, backtick or line terminator.
\<close>

datatype marker = Bullet | Numbered string

fun itemLine :: "marker \<times> string \<Rightarrow> string" where
  "itemLine (Bullet, c) = ''* '' @ c"
| "itemLine (Numbered ds, c) = ds @ ''. '' @ c"

definition itemHtml :: "marker \<times> string \<Rightarrow> string" where
  "itemHtml it = ''<li>'' @ snd it @ ''</li>''"

fun validItem :: "marker \<times> string \<Rightarrow> bool" where
  "validItem (m, c) \<longleftrightarrow>
     c \<noteq> [] \<and> list_all (\<lambda>a. a \<noteq> CHR ''*'' \<and> a \<noteq> backtick \<and> notLT a) c
     \<and> (case m of Bullet \<Rightarrow> True | Numbered ds \<Rightarrow> ds \<noteq> [] \<and> list_all isDigit ds)"

text \<open>Posts for the examples.\<close>

definition olderPost :: PostMetadata where
  "olderPost = \<lparr>title = ''Old'', filename = ''old.md'', date = ''2025-08-01'', description = ''d''\<rparr>"

definition newerPost :: PostMetadata where
  "newerPost = \<lparr>title = ''New'', filename = ''new.md'', date = ''2025-08-27'', description = ''d''\<rparr>"

definition dottedPost :: PostMetadata where
  "dottedPost = \<lparr>title = ''A'', filename = ''a.md.b.md'', date = ''2025-08-27'', description = ''d''\<rparr>"

section \<open>Notions for the fenced code blocks\<close>

text \<open>
  The replacement patterns of \<open>String.prototype.replace\<close>: a dollar sign before a dollar
  sign, an ampersand, a backtick or an apostrophe.
\<close>

fun dollarPattern :: "string \<Rightarrow> bool" where
  "dollarPattern (c # d # r) =
     ((c = CHR ''$'' \<and> (d = CHR ''$'' \<or> d = CHR ''&'' \<or> d = backtick \<or> d = CHR 0x27))
      \<or> dollarPattern (d # r))"
| "dollarPattern r = False"

text \<open>The characters of a placeholder.\<close>

definition phChar :: "char \<Rightarrow> bool" where
  "phChar c \<longleftrightarrow> c \<in> set ''_CODEBLK'' \<or> isDigit c"

definition isPlaceholder :: "string \<Rightarrow> bool" where
  "isPlaceholder p \<longleftrightarrow> (\<exists>i. p = placeholder i)"

text \<open>The strings \<open>ps\<close> stand in \<open>z\<close> in this order, one behind the other.\<close>

fun inOrder :: "string list \<Rightarrow> string \<Rightarrow> bool" where
  "inOrder [] z = True"
| "inOrder (p # ps) z = (\<exists>g r. z = g @ p @ r \<and> inOrder ps r)"

text \<open>The inverse of \<open>split('\n\n')\<close>.\<close>

fun joinParas :: "string list \<Rightarrow> string" where
  "joinParas [] = []"
| "joinParas [p] = p"
| "joinParas (p # q # ps) = p @ LF # LF # joinParas (q # ps)"

text \<open>A string of characters that escaping neither makes nor changes is in the escaped text
  only where it was in the text.\<close>

definition stable :: "string \<Rightarrow> bool" where
  "stable k \<longleftrightarrow> (\<forall>c \<in> set k. c \<notin> set ''&amp;lt;gt;quot;#039;<>'' \<and> c \<noteq> CHR 0x22 \<and> c \<noteq> CHR 0x27)"

text \<open>The properties of a code block that the list replacement depends on.\<close>

definition tight :: "string \<Rightarrow> bool" where
  "tight b \<longleftrightarrow> b \<noteq> [] \<and> hd b = CHR ''<'' \<and> last b = CHR ''>''
     \<and> \<not> sublist ''<l'' b \<and> \<not> sublist ''i>'' b"

section \<open>Properties of the primitives\<close>

lemma lazyUntil_decomp:
  "lazyUntil ok d s = Some x \<Longrightarrow> s = x @ d @ drop (length x + length d) s"
proof (induction s arbitrary: x)
  case Nil
  then show ?case by (simp split: if_splits)
next
  case (Cons c cs)
  show ?case
  proof (cases "prefix d (c # cs)")
    case True
    with Cons.prems have "x = []" by simp
    with True show ?thesis by (auto simp: prefix_def)
  next
    case False
    with Cons.prems obtain y where y: "lazyUntil ok d cs = Some y" "x = c # y"
      by (auto split: if_splits)
    from Cons.IH [OF y(1)] y(2) show ?thesis by simp
  qed
qed

lemma lazyUntil_length: "lazyUntil ok d s = Some x \<Longrightarrow> length x + length d \<le> length s"
proof -
  assume "lazyUntil ok d s = Some x"
  then have "s = x @ d @ drop (length x + length d) s" by (rule lazyUntil_decomp)
  then have "length s = length (x @ d @ drop (length x + length d) s)" by simp
  then show ?thesis by simp
qed

lemma lazyUntil_first:
  "list_all ok x \<Longrightarrow> (\<forall>k < length x. \<not> prefix d (drop k (x @ d @ r))) \<Longrightarrow>
   lazyUntil ok d (x @ d @ r) = Some x"
proof (induction x)
  case Nil
  show ?case
  proof (cases "d @ r")
    case Nil
    then show ?thesis by simp
  next
    case (Cons a l)
    have "prefix d (d @ r)" by simp
    then have "prefix d (a # l)" using Cons by simp
    then show ?thesis using Cons by simp
  qed
next
  case (Cons c x)
  from Cons.prems(2) have "\<not> prefix d ((c # x) @ d @ r)" by fastforce
  moreover have "\<forall>k < length x. \<not> prefix d (drop k (x @ d @ r))"
  proof (intro allI impI)
    fix k assume "k < length x"
    then have "Suc k < length (c # x)" by simp
    with Cons.prems(2) have "\<not> prefix d (drop (Suc k) ((c # x) @ d @ r))" by blast
    then show "\<not> prefix d (drop k (x @ d @ r))" by simp
  qed
  ultimately show ?case using Cons.IH Cons.prems(1) by simp
qed

section \<open>Sorting the registry\<close>

lemma sortCompare_valid:
  "parseDate (date a) \<noteq> None \<Longrightarrow> parseDate (date b) \<noteq> None \<Longrightarrow>
   sortCompare a b = timeValue b - timeValue a"
  by (auto simp: sortCompare_def compareFn_def timeValue_def)

lemma mset_insertPost: "mset (insertPost a ps) = add_mset a (mset ps)"
  by (induction ps) auto

lemma mset_sortPosts: "mset (sortPosts ps) = mset ps"
  by (induction ps) (auto simp: sortPosts_def mset_insertPost)

lemma set_insertPost: "set (insertPost a ps) = insert a (set ps)"
  by (induction ps) auto

lemma set_sortPosts: "set (sortPosts ps) = set ps"
  using mset_sortPosts by (metis set_mset_mset)

lemma validDates_set: "validDates ps \<longleftrightarrow> (\<forall>p \<in> set ps. parseDate (date p) \<noteq> None)"
  by (simp add: validDates_def list_all_iff)

lemma newestFirst_insertPost:
  assumes "parseDate (date a) \<noteq> None" and "validDates ps" and "newestFirst ps"
  shows "newestFirst (insertPost a ps)"
  using assms(2,3)
proof (induction ps)
  case Nil
  then show ?case by (simp add: newestFirst_def)
next
  case (Cons b bs)
  have vb: "parseDate (date b) \<noteq> None" and vbs: "validDates bs"
    using Cons.prems(1) by (simp_all add: validDates_def)
  have sb: "newestFirst bs" and hb: "\<forall>c \<in> set bs. timeValue c \<le> timeValue b"
    using Cons.prems(2) by (simp_all add: newestFirst_def)
  show ?case
  proof (cases "sortCompare a b \<le> 0")
    case True
    then have "timeValue b \<le> timeValue a"
      using sortCompare_valid [OF assms(1) vb] by simp
    with hb have "\<forall>c \<in> set (b # bs). timeValue c \<le> timeValue a" by auto
    with True Cons.prems(2) show ?thesis by (simp add: newestFirst_def)
  next
    case False
    then have "timeValue a \<le> timeValue b"
      using sortCompare_valid [OF assms(1) vb] by simp
    with hb have "\<forall>c \<in> set (insertPost a bs). timeValue c \<le> timeValue b"
      by (simp add: set_insertPost)
    moreover have "newestFirst (insertPost a bs)" using Cons.IH [OF vbs sb] .
    ultimately show ?thesis using False by (simp add: newestFirst_def)
  qed
qed

lemma validDates_sortPosts: "validDates (sortPosts ps) = validDates ps"
  by (simp add: validDates_set set_sortPosts)

lemma newestFirst_sortPosts: "validDates ps \<Longrightarrow> newestFirst (sortPosts ps)"
proof (induction ps)
  case Nil
  then show ?case by (simp add: sortPosts_def newestFirst_def)
next
  case (Cons a ps)
  then have va: "parseDate (date a) \<noteq> None" and vps: "validDates ps"
    by (simp_all add: validDates_def)
  have "newestFirst (insertPost a (sortPosts ps))"
    using va vps Cons.IH [OF vps] by (intro newestFirst_insertPost) (simp_all add: validDates_sortPosts)
  then show ?case by (simp add: sortPosts_def)
qed

lemma insertPost_sorted:
  "\<forall>b \<in> set ps. sortCompare a b \<le> 0 \<Longrightarrow> insertPost a ps = a # ps"
  by (cases ps) auto

lemma sortPosts_sorted:
  "validDates ps \<Longrightarrow> newestFirst ps \<Longrightarrow> sortPosts ps = ps"
proof (induction ps)
  case Nil
  then show ?case by (simp add: sortPosts_def)
next
  case (Cons a ps)
  then have va: "parseDate (date a) \<noteq> None" and vps: "validDates ps"
    by (simp_all add: validDates_def)
  from Cons.prems(2) have sp: "newestFirst ps" and ha: "\<forall>b \<in> set ps. timeValue b \<le> timeValue a"
    by (simp_all add: newestFirst_def)
  have "\<forall>b \<in> set ps. sortCompare a b \<le> 0"
  proof
    fix b assume "b \<in> set ps"
    with vps have "parseDate (date b) \<noteq> None" by (simp add: validDates_set)
    from sortCompare_valid [OF va this] ha \<open>b \<in> set ps\<close> show "sortCompare a b \<le> 0" by simp
  qed
  then have "insertPost a ps = a # ps" by (rule insertPost_sorted)
  moreover have "sortPosts ps = ps" using Cons.IH [OF vps sp] .
  ultimately show ?case by (simp add: sortPosts_def)
qed

lemma parseDate_27: "parseDate ''2025-08-27'' = Some 1756252800000"
  by (simp add: parseDate_def numVal_def isDigit_def daysInMonth_def isLeap_def daysFromCivil_def)

lemma parseDate_01: "parseDate ''2025-08-01'' = Some 1754006400000"
  by (simp add: parseDate_def numVal_def isDigit_def daysInMonth_def isLeap_def daysFromCivil_def)

text \<open>
  C6: whenever the list view is built, the entries shown are the registry's entries
  ordered by date descending, for a registry of valid dates; and of two posts dated
  2025-08-27 and 2025-08-01 the one dated 2025-08-27 is shown first, whichever way
  round the registry holds them.
\<close>

theorem list_view_newest_first:
  "(validDates (blogPosts pg) \<longrightarrow>
      (\<exists>ps. container (loadBlogPosts pg) = PostList ps \<and> newestFirst ps
            \<and> mset ps = mset (blogPosts pg)))
   \<and> (date a = ''2025-08-27'' \<and> date b = ''2025-08-01'' \<longrightarrow>
        container (loadBlogPosts (pg\<lparr>blogPosts := [a, b]\<rparr>)) = PostList [a, b]
      \<and> container (loadBlogPosts (pg\<lparr>blogPosts := [b, a]\<rparr>)) = PostList [a, b])"
proof (intro conjI impI)
  assume "validDates (blogPosts pg)"
  then show "\<exists>ps. container (loadBlogPosts pg) = PostList ps \<and> newestFirst ps
            \<and> mset ps = mset (blogPosts pg)"
    by (simp add: loadBlogPosts_def Let_def newestFirst_sortPosts mset_sortPosts)
next
  assume d: "date a = ''2025-08-27'' \<and> date b = ''2025-08-01''"
  then have ab: "sortCompare a b = - 2246400000" and ba: "sortCompare b a = 2246400000"
    by (simp_all add: sortCompare_def compareFn_def parseDate_27 parseDate_01)
  show "container (loadBlogPosts (pg\<lparr>blogPosts := [a, b]\<rparr>)) = PostList [a, b]"
    by (simp add: loadBlogPosts_def Let_def sortPosts_def ab)
  show "container (loadBlogPosts (pg\<lparr>blogPosts := [b, a]\<rparr>)) = PostList [a, b]"
    by (simp add: loadBlogPosts_def Let_def sortPosts_def ba)
qed

theorem list_view_newest_first_witness:
  "validDates [olderPost, newerPost]
   \<and> date newerPost = ''2025-08-27'' \<and> date olderPost = ''2025-08-01''
   \<and> (\<exists>ps. container (loadBlogPosts \<lparr>blogPosts = [olderPost, newerPost], container = PostList []\<rparr>) = PostList ps
         \<and> newestFirst ps \<and> mset ps = mset [olderPost, newerPost])
   \<and> container (loadBlogPosts \<lparr>blogPosts = [olderPost, newerPost], container = PostList []\<rparr>)
       = PostList [newerPost, olderPost]"
proof -
  have v: "validDates [olderPost, newerPost]"
    by (simp add: validDates_def olderPost_def newerPost_def parseDate_27 parseDate_01)
  have d: "date newerPost = ''2025-08-27'' \<and> date olderPost = ''2025-08-01''"
    by (simp add: olderPost_def newerPost_def)
  have r: "(\<exists>ps. container (loadBlogPosts \<lparr>blogPosts = [olderPost, newerPost], container = PostList []\<rparr>) = PostList ps
         \<and> newestFirst ps \<and> mset ps = mset [olderPost, newerPost])
   \<and> container (loadBlogPosts \<lparr>blogPosts = [olderPost, newerPost], container = PostList []\<rparr>)
       = PostList [newerPost, olderPost]"
    using v d
      list_view_newest_first [of "\<lparr>blogPosts = [olderPost, newerPost], container = PostList []\<rparr>"
        newerPost olderPost]
    by auto
  show ?thesis using v d r by blast
qed

text \<open>
  C10: \<open>loadBlogPosts\<close> sorts the global registry in place. After the call the
  registry holds the same entries as before, a later \<open>loadPost\<close> leaves the new order as
  it is, and for a registry of valid dates the registry itself is ordered by date
  descending and stays so under further calls.
\<close>

theorem registry_sorted_in_place:
  "mset (blogPosts (loadBlogPosts pg)) = mset (blogPosts pg)
   \<and> blogPosts (loadPost fetch post (loadBlogPosts pg)) = blogPosts (loadBlogPosts pg)
   \<and> (validDates (blogPosts pg) \<longrightarrow>
        newestFirst (blogPosts (loadBlogPosts pg))
        \<and> blogPosts (loadBlogPosts (loadBlogPosts pg)) = blogPosts (loadBlogPosts pg))"
proof (intro conjI impI)
  show "mset (blogPosts (loadBlogPosts pg)) = mset (blogPosts pg)"
    by (simp add: loadBlogPosts_def Let_def mset_sortPosts)
  show "blogPosts (loadPost fetch post (loadBlogPosts pg)) = blogPosts (loadBlogPosts pg)"
    by (simp add: loadPost_def split: fetched.splits option.splits)
next
  assume v: "validDates (blogPosts pg)"
  then show n: "newestFirst (blogPosts (loadBlogPosts pg))"
    by (simp add: loadBlogPosts_def Let_def newestFirst_sortPosts)
  have "validDates (blogPosts (loadBlogPosts pg))"
    using v by (simp add: loadBlogPosts_def Let_def validDates_sortPosts)
  from sortPosts_sorted [OF this n]
  show "blogPosts (loadBlogPosts (loadBlogPosts pg)) = blogPosts (loadBlogPosts pg)"
    by (simp add: loadBlogPosts_def Let_def)
qed


theorem registry_sorted_in_place_witness:
  "validDates [olderPost, newerPost]
   \<and> blogPosts (loadBlogPosts \<lparr>blogPosts = [olderPost, newerPost], container = PostList []\<rparr>)
       = [newerPost, olderPost]
   \<and> [newerPost, olderPost] \<noteq> [olderPost, newerPost]
   \<and> newestFirst (blogPosts (loadBlogPosts \<lparr>blogPosts = [olderPost, newerPost], container = PostList []\<rparr>))
   \<and> blogPosts (loadBlogPosts (loadBlogPosts \<lparr>blogPosts = [olderPost, newerPost], container = PostList []\<rparr>))
       = blogPosts (loadBlogPosts \<lparr>blogPosts = [olderPost, newerPost], container = PostList []\<rparr>)"
proof -
  have v: "validDates [olderPost, newerPost]"
    by (simp add: validDates_def olderPost_def newerPost_def parseDate_27 parseDate_01)
  have c: "sortCompare olderPost newerPost = 2246400000"
    by (simp add: sortCompare_def compareFn_def olderPost_def newerPost_def parseDate_27 parseDate_01)
  have s: "blogPosts (loadBlogPosts \<lparr>blogPosts = [olderPost, newerPost], container = PostList []\<rparr>)
       = [newerPost, olderPost]"
    by (simp add: loadBlogPosts_def Let_def sortPosts_def c)
  have n: "[newerPost, olderPost] \<noteq> [olderPost, newerPost]"
    by (simp add: olderPost_def newerPost_def)
  have r: "newestFirst (blogPosts (loadBlogPosts \<lparr>blogPosts = [olderPost, newerPost], container = PostList []\<rparr>))
   \<and> blogPosts (loadBlogPosts (loadBlogPosts \<lparr>blogPosts = [olderPost, newerPost], container = PostList []\<rparr>))
       = blogPosts (loadBlogPosts \<lparr>blogPosts = [olderPost, newerPost], container = PostList []\<rparr>)"
    using v registry_sorted_in_place [of "\<lparr>blogPosts = [olderPost, newerPost], container = PostList []\<rparr>"]
    by simp
  show ?thesis using v s n r by blast
qed

section \<open>Deep links\<close>

lemma slug_mdFileName:
  assumes "mdFileName f"
  shows "slug f = take (length f - 3) f"
proof -
  from assms obtain x where f: "f = x @ ''.md''" by (auto simp: mdFileName_def suffix_def)
  have "\<forall>k < length x. \<not> prefix ''.md'' (drop k (x @ ''.md'' @ []))"
    using assms f by (simp add: mdFileName_def)
  moreover have "list_all (\<lambda>c. True) x" by (simp add: list_all_iff)
  ultimately have "lazyUntil (\<lambda>c. True) ''.md'' (x @ ''.md'' @ []) = Some x"
    by (rule lazyUntil_first [rotated])
  then show ?thesis by (simp add: slug_def replaceFirst_def f)
qed

lemma slug_inj:
  assumes "mdFileName f" "mdFileName g" "slug f = slug g"
  shows "f = g"
proof -
  from assms(1) obtain x where f: "f = x @ ''.md''" by (auto simp: mdFileName_def suffix_def)
  from assms(2) obtain y where g: "g = y @ ''.md''" by (auto simp: mdFileName_def suffix_def)
  from slug_mdFileName [OF assms(1)] f have "slug f = x" by simp
  moreover from slug_mdFileName [OF assms(2)] g have "slug g = y" by simp
  ultimately show ?thesis using assms(3) f g by simp
qed

text \<open>
  C9 as stated fails: distinct file names can have one slug, both when a name lacks
  the extension and when \<open>.md\<close> stands in a name before its extension.
\<close>

theorem slug_not_injective:
  "slug ''a.md'' = slug ''a'' \<and> ''a.md'' \<noteq> ''a''
   \<and> slug ''a.md.md'' = slug ''.mda.md'' \<and> ''a.md.md'' \<noteq> ''.mda.md''"
  by (simp add: slug_def replaceFirst_def)

text \<open>
  C9, amended: in a registry whose file names are distinct and each end in \<open>.md\<close> with
  no other occurrence of \<open>.md\<close>, the slugs are distinct, and each slug is its file name
  without the extension.
\<close>

theorem slug_injective_on_md_names:
  assumes "\<forall>p \<in> set ps. mdFileName (filename p)"
    and "distinct (map filename ps)"
  shows "distinct (map (\<lambda>p. slug (filename p)) ps)
         \<and> (\<forall>p \<in> set ps. slug (filename p) @ ''.md'' = filename p)"
proof
  have "inj_on slug (set (map filename ps))"
    using assms(1) by (auto intro!: inj_onI slug_inj)
  then have "distinct (map slug (map filename ps))"
    using assms(2) by (simp add: distinct_map comp_inj_on)
  then show "distinct (map (\<lambda>p. slug (filename p)) ps)" by (simp add: comp_def)
next
  show "\<forall>p \<in> set ps. slug (filename p) @ ''.md'' = filename p"
  proof
    fix p assume "p \<in> set ps"
    with assms(1) have m: "mdFileName (filename p)" by blast
    then obtain x where "filename p = x @ ''.md''" by (auto simp: mdFileName_def suffix_def)
    with slug_mdFileName [OF m] show "slug (filename p) @ ''.md'' = filename p" by simp
  qed
qed

theorem slug_injective_on_md_names_witness:
  "list_all (\<lambda>p. mdFileName (filename p)) initialBlogPosts
   \<and> distinct (map filename initialBlogPosts)
   \<and> distinct (map (\<lambda>p. slug (filename p)) initialBlogPosts)
   \<and> map (\<lambda>p. slug (filename p)) initialBlogPosts
       = [''building-redis-client-ocaml'', ''welcome-to-my-blog'']"
proof -
  have m: "\<forall>p \<in> set initialBlogPosts. mdFileName (filename p)"
    by code_simp
  have d: "distinct (map filename initialBlogPosts)"
    by (simp add: initialBlogPosts_def)
  have e: "map (\<lambda>p. slug (filename p)) initialBlogPosts
       = [''building-redis-client-ocaml'', ''welcome-to-my-blog'']"
    by code_simp
  show ?thesis using m d e slug_injective_on_md_names [OF m d] by (simp add: list_all_iff)
qed

text \<open>
  C5: the claim asks that a fragment equal to an entry's file name with its extension
  removed leads to that post. \<open>checkForDirectLink\<close> derives the slug with
  \<open>replace('.md', '')\<close>, which removes the first \<open>.md\<close> of the name, not its
  extension: for the file name \<open>a.md.b.md\<close> the fragment \<open>#a.md.b\<close> finds no entry and
  the list view is shown.
\<close>

theorem deep_link_extension_counterexample:
  "filename dottedPost = ''a.md.b'' @ ''.md''
   \<and> container (checkForDirectLink (\<lambda>url. Response 200 (Some ''text'')) ''#a.md.b''
        \<lparr>blogPosts = [dottedPost], container = PostList []\<rparr>) = PostList [dottedPost]"
  by code_simp

section \<open>Loading a post\<close>

lemma render_not_found: "markdownToHtml ''Not Found'' = ''<p>Not Found</p>''"
  by code_simp

text \<open>
  C4: the claim asks for the error message on a response with a status that is not a
  success. \<open>loadPost\<close> does not look at the status: the body of a 404 response is
  rendered as the post.
\<close>

theorem http_error_status_is_rendered:
  "container (loadPost (\<lambda>url. if url = ''posts/'' @ filename newerPost
                              then Response 404 (Some ''Not Found'') else Rejected)
      newerPost \<lparr>blogPosts = [newerPost], container = PostList [newerPost]\<rparr>)
   = Article ''<p>Not Found</p>''"
  by (simp add: loadPost_def render_not_found)

section \<open>Escaping\<close>

text \<open>
  C2: the claim asks for escaping in inline code. The fenced path escapes and prose is
  passed through, but the inline-code replacement inserts the captured text as it is.
\<close>

theorem inline_code_not_escaped:
  "markdownToHtml ([backtick] @ ''<b>'' @ [backtick]) = ''<p><code><b></code></p>''
   \<and> markdownToHtml (fence @ ''<b>'' @ fence) = ''<pre><code>&lt;b&gt;</code></pre>''
   \<and> markdownToHtml ''a <b> c'' = ''<p>a <b> c</p>''"
  by code_simp

section \<open>The stages of the renderer\<close>

declare mapLines.simps [simp del]
declare matchItems.simps [simp del]
declare showNat.simps [simp del]

lemma isLineTerminator_LF [simp]: "isLineTerminator LF"
  by (simp add: isLineTerminator_def)

lemma notLT_iff: "notLT c \<longleftrightarrow> c \<noteq> LF \<and> c \<noteq> CR"
  by (simp add: notLT_def isLineTerminator_def)

lemma mapLines_no_terminator:
  assumes "list_all notLT s"
  shows "mapLines f s = f s"
proof -
  have d: "dropWhile (\<lambda>c. \<not> isLineTerminator c) s = []"
    using assms by (simp add: list_all_iff notLT_def)
  show ?thesis by (subst mapLines.simps) (simp add: d)
qed

lemma mapLines_line:
  assumes "list_all notLT l" and "isLineTerminator t"
  shows "mapLines f (l @ t # r) = f l @ t # mapLines f r"
proof -
  have n: "\<And>x. x \<in> set l \<Longrightarrow> \<not> isLineTerminator x"
    using assms(1) by (simp add: list_all_iff notLT_def)
  have d: "dropWhile (\<lambda>c. \<not> isLineTerminator c) (l @ t # r) = t # r"
    using n assms(2) by (simp add: dropWhile_append3)
  have k: "takeWhile (\<lambda>c. \<not> isLineTerminator c) (l @ t # r) = l"
    using n assms(2) by (simp add: takeWhile_append2)
  show ?thesis by (subst mapLines.simps) (simp add: d k)
qed

lemma mapLines_Nil [simp]: "mapLines f [] = f []"
  by (subst mapLines.simps) simp

lemma mapLines_split:
  assumes "isLineTerminator t"
  shows "mapLines f (a @ t # b) = mapLines f a @ t # mapLines f b"
proof (induction f a rule: mapLines.induct)
  case (1 f s)
  show ?case
  proof (cases "dropWhile (\<lambda>c. \<not> isLineTerminator c) s")
    case Nil
    then have "list_all notLT s"
      by (simp add: list_all_iff notLT_def dropWhile_eq_Nil_conv)
    then show ?thesis
      using assms by (simp add: mapLines_line mapLines_no_terminator)
  next
    case (Cons t' r)
    define l where "l = takeWhile (\<lambda>c. \<not> isLineTerminator c) s"
    have s: "s = l @ t' # r"
      using Cons l_def by (metis takeWhile_dropWhile_id)
    have l: "list_all notLT l"
      unfolding l_def notLT_def list_all_iff by (auto dest: set_takeWhileD)
    have t': "isLineTerminator t'"
      using Cons by (metis (mono_tags, lifting) hd_dropWhile list.distinct(1) list.sel(1))
    have "mapLines f (s @ t # b) = f l @ t' # mapLines f (r @ t # b)"
      using mapLines_line [OF l t', of f "r @ t # b"] by (simp add: s)
    also have "mapLines f (r @ t # b) = mapLines f r @ t # mapLines f b"
      using "1.IH" [OF Cons] .
    finally show ?thesis
      using mapLines_line [OF l t', of f r] by (simp add: s)
  qed
qed

lemma joinLF_Cons: "ps \<noteq> [] \<Longrightarrow> joinLF (p # ps) = p @ LF # joinLF ps"
  by (cases ps) simp_all

lemma mapLines_joinLF:
  assumes "ls \<noteq> []" and "\<forall>l \<in> set ls. list_all notLT l"
  shows "mapLines f (joinLF ls) = joinLF (map f ls)"
  using assms
proof (induction ls)
  case Nil
  then show ?case by simp
next
  case (Cons l ls)
  show ?case
  proof (cases "ls = []")
    case True
    with Cons.prems show ?thesis by (simp add: mapLines_no_terminator)
  next
    case False
    with Cons have "mapLines f (joinLF ls) = joinLF (map f ls)" by simp
    moreover have "list_all notLT l" using Cons.prems by simp
    ultimately show ?thesis
      using False by (simp add: joinLF_Cons mapLines_line)
  qed
qed

lemma replaceAll_skip:
  assumes "\<And>k. k < length u \<Longrightarrow> m (drop k (u @ v)) = None"
  shows "replaceAll m (u @ v) = u @ replaceAll m v"
  using assms
proof (induction u)
  case Nil
  then show ?case by simp
next
  case (Cons c u)
  have "m ((c # u) @ v) = None" using Cons.prems [of 0] by simp
  moreover have "replaceAll m (u @ v) = u @ replaceAll m v"
  proof (rule Cons.IH)
    fix k assume "k < length u"
    then show "m (drop k (u @ v)) = None" using Cons.prems [of "Suc k"] by simp
  qed
  ultimately show ?case by simp
qed

lemma replaceAll_match:
  assumes "m s = Some (rep, n)" and "0 < n" and "s \<noteq> []"
  shows "replaceAll m s = rep @ replaceAll m (drop n s)"
proof (cases s)
  case Nil
  then show ?thesis using assms by simp
next
  case (Cons c cs)
  have "drop (n - 1) cs = drop n (c # cs)" using assms(2) by (cases n) simp_all
  then show ?thesis using assms(1) Cons by simp
qed

text \<open>A matcher that only fires on a given first character.\<close>

lemma replaceAll_skip_char:
  assumes "\<And>s. m s \<noteq> None \<Longrightarrow> s \<noteq> [] \<and> hd s = a" and "a \<notin> set u"
  shows "replaceAll m (u @ v) = u @ replaceAll m v"
proof (rule replaceAll_skip)
  fix k assume k: "k < length u"
  show "m (drop k (u @ v)) = None"
  proof (rule ccontr)
    assume "m (drop k (u @ v)) \<noteq> None"
    then have "hd (drop k (u @ v)) = a" using assms(1) by blast
    moreover have "hd (drop k (u @ v)) = u ! k" using k by (simp add: hd_drop_conv_nth nth_append)
    ultimately show False using assms(2) k by (metis nth_mem)
  qed
qed

lemma replaceAll_id_char:
  assumes "\<And>s. m s \<noteq> None \<Longrightarrow> s \<noteq> [] \<and> hd s = a" and "a \<notin> set s"
  shows "replaceAll m s = s"
  using replaceAll_skip_char [where v = "[]", OF assms] by simp

lemma matchBold_hd: "matchBold s \<noteq> None \<Longrightarrow> s \<noteq> [] \<and> hd s = CHR ''*''"
  by (cases s) (auto simp: matchBold_def split: if_splits)

lemma matchItalic_hd: "matchItalic s \<noteq> None \<Longrightarrow> s \<noteq> [] \<and> hd s = CHR ''*''"
  by (cases s) (auto simp: matchItalic_def split: if_splits)

lemma matchInlineCode_hd: "matchInlineCode s \<noteq> None \<Longrightarrow> s \<noteq> [] \<and> hd s = backtick"
  by (cases s) (auto simp: matchInlineCode_def Let_def split: if_splits)

lemma matchItem_prefix: "matchItem s \<noteq> None \<Longrightarrow> prefix ''<li>'' s"
  by (auto simp: matchItem_def split: if_splits)

lemma matchList_prefix: "matchList s \<noteq> None \<Longrightarrow> prefix ''<li>'' s"
proof -
  assume "matchList s \<noteq> None"
  then have "matchItems s \<noteq> 0" by (auto simp: matchList_def Let_def split: if_splits)
  then have "matchItem s \<noteq> None" by (subst (asm) matchItems.simps) (auto split: option.splits)
  then show ?thesis by (rule matchItem_prefix)
qed

lemma matchList_hd: "matchList s \<noteq> None \<Longrightarrow> s \<noteq> [] \<and> hd s = CHR ''<''"
  using matchList_prefix [of s] by (cases s) (auto simp: prefix_def)

lemma matchFence_hd: "matchFence s \<noteq> None \<Longrightarrow> s \<noteq> [] \<and> hd s = backtick"
  by (cases s) (auto simp: matchFence_def fence_def split: if_splits)

lemma extractCodeBlocks_no_backtick:
  "backtick \<notin> set s \<Longrightarrow> extractCodeBlocks i s = (s, [])"
proof (induction s)
  case Nil
  then show ?case by simp
next
  case (Cons c s)
  have "matchFence (c # s) = None"
  proof (rule ccontr)
    assume "matchFence (c # s) \<noteq> None"
    from matchFence_hd [OF this] show False using Cons.prems by simp
  qed
  then show ?case using Cons by simp
qed

section \<open>Text without markdown syntax\<close>

lemma matchList_None: "\<not> prefix ''<li>'' s \<Longrightarrow> matchList s = None"
  using matchList_prefix by blast

lemma splitParas_no_LF: "LF \<notin> set s \<Longrightarrow> splitParas s = [s]"
  by (induction s rule: splitParas.induct) auto

lemma trim_nonempty: "s \<noteq> [] \<Longrightarrow> \<not> isWhiteSpace (hd s) \<Longrightarrow> trim s \<noteq> []"
  by (cases s) (simp_all add: trim_def)

lemma plain_lines:
  assumes "plainText s"
  shows "h3Line s = s" "h2Line s = s" "h1Line s = s" "hrLine s = s" "bulletLine s = s"
    "numberLine s = s"
proof -
  from assms obtain c cs where s: "s = c # cs" by (cases s) (auto simp: plainText_def)
  with assms have c: "c \<noteq> CHR ''#''" "c \<noteq> CHR ''-''" "c \<noteq> CHR ''*''" "\<not> isDigit c"
    by (auto simp: plainText_def)
  show "h3Line s = s" "h2Line s = s" "h1Line s = s" "hrLine s = s" "bulletLine s = s"
    "numberLine s = s"
    using c by (auto simp: s h3Line_def h2Line_def h1Line_def hrLine_def bulletLine_def numberLine_def)
qed

lemma replaceAll_matchList_para:
  assumes "CHR ''<'' \<notin> set s"
  shows "replaceAll matchList (''<p>'' @ s @ ''</p>'' @ r) = ''<p>'' @ s @ ''</p>'' @ replaceAll matchList r"
proof -
  have "replaceAll matchList (s @ ''</p>'' @ r) = s @ replaceAll matchList (''</p>'' @ r)"
    using matchList_hd assms by (rule replaceAll_skip_char)
  then show ?thesis by (simp add: matchList_None)
qed

lemma render_plain:
  assumes "plainText s"
  shows "markdownToHtml s = ''<p>'' @ s @ ''</p>''"
proof -
  have nb: "backtick \<notin> set s" and ns: "CHR ''*'' \<notin> set s" and nl: "CHR ''<'' \<notin> set s"
    and lt: "list_all notLT s"
    using assms by (auto simp: plainText_def list_all_iff)
  have e: "extractCodeBlocks 0 s = (s, [])" using nb by (rule extractCodeBlocks_no_backtick)
  have b: "replaceAll matchBold s = s" using matchBold_hd ns by (rule replaceAll_id_char)
  have i: "replaceAll matchItalic s = s" using matchItalic_hd ns by (rule replaceAll_id_char)
  have c: "replaceAll matchInlineCode s = s" using matchInlineCode_hd nb by (rule replaceAll_id_char)
  have "LF \<notin> set s" using lt by (auto simp: list_all_iff notLT_iff)
  then have p: "splitParas s = [s]" by (rule splitParas_no_LF)
  have "\<not> startsWithTag s"
    using assms nl by (cases s) (auto simp: startsWithTag_def split: list.splits)
  moreover have "\<not> prefix ''__CODE_BLOCK_'' s"
    using assms by (cases s) (auto simp: plainText_def)
  moreover have "trim s \<noteq> []" using assms by (intro trim_nonempty) (auto simp: plainText_def)
  ultimately have w: "wrapPara s = ''<p>'' @ s @ ''</p>''" by (simp add: wrapPara_def)
  have u: "replaceAll matchList (''<p>'' @ s @ ''</p>'' @ []) = ''<p>'' @ s @ ''</p>'' @ replaceAll matchList []"
    using nl by (rule replaceAll_matchList_para)
  show ?thesis
    using u by (simp add: markdownToHtml_def e mapLines_no_terminator lt plain_lines [OF assms] b i c p w)
qed

lemma unclosed_fence: "markdownToHtml (fence @ ''abc'') = ''<p>'' @ fence @ ''abc</p>''"
  by code_simp

lemma lone_asterisk: "markdownToHtml ''a * b'' = ''<p>a * b</p>''"
  by code_simp

text \<open>
  C3: the claim asks that unmatched syntax stays literal text. The renderer returns a
  string for every input, but an opening \<open>**\<close> that is never closed does not stay
  literal: the italic expression \<open>\*(.*?)\*\<close> accepts an empty capture and takes the two
  asterisks as an empty emphasis. (The inline-code expression beside it asks for at
  least one character between its delimiters.)
\<close>

theorem unclosed_bold_not_literal:
  "markdownToHtml ''**b'' = ''<p><em></em>b</p>''
   \<and> markdownToHtml ''**b'' \<noteq> ''<p>**b</p>''"
  by code_simp

section \<open>Headings\<close>

lemma mapLines_middle:
  assumes f: "f [] = []" and l: "list_all notLT l"
    and pre: "pre = [] \<or> isLineTerminator (last pre)"
    and post: "post = [] \<or> isLineTerminator (hd post)"
  shows "mapLines f (pre @ l @ post) = mapLines f pre @ f l @ mapLines f post"
proof -
  have right: "mapLines f (l @ post) = f l @ mapLines f post"
  proof (cases post)
    case Nil
    then show ?thesis using f l by (simp add: mapLines_no_terminator)
  next
    case (Cons t2 post')
    with post have t2: "isLineTerminator t2" by simp
    have "mapLines f ([] @ t2 # post') = f [] @ t2 # mapLines f post'"
      using t2 by (intro mapLines_line) simp
    then show ?thesis using Cons f mapLines_line [OF l t2, of f post'] by simp
  qed
  show ?thesis
  proof (cases pre rule: rev_cases)
    case Nil
    then show ?thesis using right f by simp
  next
    case (snoc pre' t1)
    with pre have t1: "isLineTerminator t1" by simp
    have "mapLines f (pre' @ t1 # (l @ post)) = mapLines f pre' @ t1 # mapLines f (l @ post)"
      using t1 by (rule mapLines_split)
    moreover have "mapLines f (pre' @ t1 # []) = mapLines f pre' @ t1 # mapLines f []"
      using t1 by (rule mapLines_split)
    ultimately show ?thesis using snoc right f by simp
  qed
qed

lemma mapLines_ends_line:
  assumes "f [] = []" and "pre = [] \<or> isLineTerminator (last pre)"
  shows "mapLines f pre = [] \<or> isLineTerminator (last (mapLines f pre))"
proof (cases pre rule: rev_cases)
  case Nil
  then show ?thesis using assms(1) by simp
next
  case (snoc pre' t1)
  with assms(2) have t1: "isLineTerminator t1" by simp
  have "mapLines f (pre' @ t1 # []) = mapLines f pre' @ t1 # mapLines f []"
    using t1 by (rule mapLines_split)
  then show ?thesis using snoc t1 assms(1) by simp
qed

lemma mapLines_starts_line:
  assumes "f [] = []" and "post = [] \<or> isLineTerminator (hd post)"
  shows "mapLines f post = [] \<or> isLineTerminator (hd (mapLines f post))"
proof (cases post)
  case Nil
  then show ?thesis using assms(1) by simp
next
  case (Cons t2 post')
  with assms(2) have t2: "isLineTerminator t2" by simp
  have "mapLines f ([] @ t2 # post') = f [] @ t2 # mapLines f post'"
    using t2 by (intro mapLines_line) simp
  then show ?thesis using Cons t2 assms(1) by simp
qed

lemma heading_lines_Nil [simp]: "h3Line [] = []" "h2Line [] = []" "h1Line [] = []"
  by (simp_all add: h3Line_def h2Line_def h1Line_def)

lemma heading3_line:
  "h3Line (''### '' @ t) = ''<h3>'' @ t @ ''</h3>''"
  "h2Line (''<h3>'' @ t @ ''</h3>'') = ''<h3>'' @ t @ ''</h3>''"
  "h1Line (''<h3>'' @ t @ ''</h3>'') = ''<h3>'' @ t @ ''</h3>''"
  by (simp_all add: h3Line_def h2Line_def h1Line_def)

lemma heading3_stages:
  assumes t: "list_all notLT t"
    and pre: "pre = [] \<or> isLineTerminator (last pre)"
    and post: "post = [] \<or> isLineTerminator (hd post)"
  shows "mapLines h1Line (mapLines h2Line (mapLines h3Line (pre @ ''### '' @ t @ post)))
         = mapLines h1Line (mapLines h2Line (mapLines h3Line pre)) @ ''<h3>'' @ t @ ''</h3>''
           @ mapLines h1Line (mapLines h2Line (mapLines h3Line post))"
proof -
  have l0: "list_all notLT (''### '' @ t)" using t by (simp add: notLT_iff LF_def CR_def)
  have l1: "list_all notLT (''<h3>'' @ t @ ''</h3>'')" using t by (simp add: notLT_iff LF_def CR_def)
  have s3: "mapLines h3Line (pre @ (''### '' @ t) @ post)
      = mapLines h3Line pre @ (''<h3>'' @ t @ ''</h3>'') @ mapLines h3Line post"
    using mapLines_middle [OF _ l0 pre post, of h3Line] by (simp add: h3Line_def)
  have pre3: "mapLines h3Line pre = [] \<or> isLineTerminator (last (mapLines h3Line pre))"
    using mapLines_ends_line [of h3Line pre, OF _ pre] by simp
  have post3: "mapLines h3Line post = [] \<or> isLineTerminator (hd (mapLines h3Line post))"
    using mapLines_starts_line [of h3Line post, OF _ post] by simp
  have s2: "mapLines h2Line (mapLines h3Line pre @ (''<h3>'' @ t @ ''</h3>'') @ mapLines h3Line post)
      = mapLines h2Line (mapLines h3Line pre) @ (''<h3>'' @ t @ ''</h3>'')
        @ mapLines h2Line (mapLines h3Line post)"
    using mapLines_middle [OF _ l1 pre3 post3, of h2Line] by (simp add: h2Line_def)
  have pre2: "mapLines h2Line (mapLines h3Line pre) = []
      \<or> isLineTerminator (last (mapLines h2Line (mapLines h3Line pre)))"
    using mapLines_ends_line [of h2Line "mapLines h3Line pre", OF _ pre3] by simp
  have post2: "mapLines h2Line (mapLines h3Line post) = []
      \<or> isLineTerminator (hd (mapLines h2Line (mapLines h3Line post)))"
    using mapLines_starts_line [of h2Line "mapLines h3Line post", OF _ post3] by simp
  have s1: "mapLines h1Line (mapLines h2Line (mapLines h3Line pre) @ (''<h3>'' @ t @ ''</h3>'')
        @ mapLines h2Line (mapLines h3Line post))
      = mapLines h1Line (mapLines h2Line (mapLines h3Line pre)) @ (''<h3>'' @ t @ ''</h3>'')
        @ mapLines h1Line (mapLines h2Line (mapLines h3Line post))"
    using mapLines_middle [OF _ l1 pre2 post2, of h1Line] by (simp add: h1Line_def)
  show ?thesis using s3 s2 s1 by simp
qed

lemma replaceAll_matchList_h3:
  assumes "CHR ''<'' \<notin> set s"
  shows "replaceAll matchList (''<h3>'' @ s @ ''</h3>'') = ''<h3>'' @ s @ ''</h3>''"
proof -
  have "replaceAll matchList (s @ ''</h3>'') = s @ replaceAll matchList ''</h3>''"
    using matchList_hd assms by (rule replaceAll_skip_char)
  then show ?thesis by (simp add: matchList_None)
qed

lemma render_heading3:
  assumes "plainInline t"
  shows "markdownToHtml (''### '' @ t) = ''<h3>'' @ t @ ''</h3>''"
proof -
  let ?h = "''<h3>'' @ t @ ''</h3>''"
  have nb: "backtick \<notin> set t" and ns: "CHR ''*'' \<notin> set t" and nl: "CHR ''<'' \<notin> set t"
    and lt: "list_all notLT t"
    using assms by (auto simp: plainInline_def list_all_iff)
  have l0: "list_all notLT (''### '' @ t)" using lt by (simp add: notLT_iff LF_def CR_def)
  have l1: "list_all notLT ?h" using lt by (simp add: notLT_iff LF_def CR_def)
  have e: "extractCodeBlocks 0 (''### '' @ t) = (''### '' @ t, [])"
    using nb by (intro extractCodeBlocks_no_backtick) (simp add: backtick_def)
  have ns': "CHR ''*'' \<notin> set ?h" using ns by simp
  have nb': "backtick \<notin> set ?h" using nb by (simp add: backtick_def)
  have b: "replaceAll matchBold ?h = ?h"
    using matchBold_hd ns' by (rule replaceAll_id_char)
  have i: "replaceAll matchItalic ?h = ?h"
    using matchItalic_hd ns' by (rule replaceAll_id_char)
  have c: "replaceAll matchInlineCode ?h = ?h"
    using matchInlineCode_hd nb' by (rule replaceAll_id_char)
  have o: "hrLine ?h = ?h" "bulletLine ?h = ?h" "numberLine ?h = ?h"
    by (simp_all add: hrLine_def bulletLine_def numberLine_def isDigit_def)
  have "LF \<notin> set ?h" using lt by (auto simp: list_all_iff notLT_iff LF_def)
  then have p: "splitParas ?h = [?h]" by (rule splitParas_no_LF)
  have w: "wrapPara ?h = ?h" by (simp add: wrapPara_def startsWithTag_def)
  have u: "replaceAll matchList ?h = ?h" using nl by (rule replaceAll_matchList_h3)
  have m3: "mapLines h3Line (''### '' @ t) = ?h"
    using mapLines_no_terminator [OF l0] by (simp add: h3Line_def)
  have m: "mapLines h2Line ?h = ?h" "mapLines h1Line ?h = ?h" "mapLines hrLine ?h = ?h"
    "mapLines bulletLine ?h = ?h" "mapLines numberLine ?h = ?h"
    using mapLines_no_terminator [OF l1] o by (simp_all add: h2Line_def h1Line_def)
  show ?thesis
    unfolding markdownToHtml_def e
    using m3 m b i c p w u by simp
qed

text \<open>
  C7: a line that starts with \<open>###\<close> and a space becomes a level-3 heading with the
  marker stripped, wherever it stands in the text: the three heading replacements, in
  the order of the source, turn the line into \<open><h3>...</h3>\<close> and the later replacements
  for \<open>##\<close> and \<open>#\<close> leave it alone. For a title without inline markup the whole
  renderer gives exactly the level-3 heading.
\<close>
theorem heading_level3:
  "(list_all notLT t \<and> (pre = [] \<or> isLineTerminator (last pre))
      \<and> (post = [] \<or> isLineTerminator (hd post)) \<longrightarrow>
      mapLines h1Line (mapLines h2Line (mapLines h3Line (pre @ ''### '' @ t @ post)))
      = mapLines h1Line (mapLines h2Line (mapLines h3Line pre)) @ ''<h3>'' @ t @ ''</h3>''
        @ mapLines h1Line (mapLines h2Line (mapLines h3Line post)))
   \<and> (plainInline t \<longrightarrow> markdownToHtml (''### '' @ t) = ''<h3>'' @ t @ ''</h3>'')"
  using heading3_stages render_heading3 by blast

theorem heading_level3_witness:
  "list_all notLT ''Title'' \<and> isLineTerminator (last (''# A'' @ [LF])) \<and> isLineTerminator (hd (LF # ''## B''))
   \<and> plainInline ''Title''
   \<and> mapLines h1Line (mapLines h2Line (mapLines h3Line ((''# A'' @ [LF]) @ ''### '' @ ''Title'' @ (LF # ''## B''))))
      = ''<h1>A</h1>'' @ [LF] @ ''<h3>Title</h3>'' @ [LF] @ ''<h2>B</h2>''
   \<and> markdownToHtml ''### Title'' = ''<h3>Title</h3>''"
proof -
  have a: "list_all notLT ''Title''" by (simp add: notLT_iff LF_def CR_def)
  have b: "isLineTerminator (last (''# A'' @ [LF]))" "isLineTerminator (hd (LF # ''## B''))" by simp_all
  have c: "plainInline ''Title''" by (simp add: plainInline_def backtick_def notLT_iff LF_def CR_def)
  have d: "mapLines h1Line (mapLines h2Line (mapLines h3Line (''# A'' @ [LF]))) = ''<h1>A</h1>'' @ [LF]"
    by code_simp
  have e: "mapLines h1Line (mapLines h2Line (mapLines h3Line (LF # ''## B''))) = [LF] @ ''<h2>B</h2>''"
    by code_simp
  note t = heading_level3 [of "''Title''" "''# A'' @ [LF]" "LF # ''## B''"]
  have "mapLines h1Line (mapLines h2Line (mapLines h3Line ((''# A'' @ [LF]) @ ''### '' @ ''Title'' @ (LF # ''## B''))))
      = ''<h1>A</h1>'' @ [LF] @ ''<h3>Title</h3>'' @ [LF] @ ''<h2>B</h2>''"
    using t a b d e by simp
  moreover have "markdownToHtml ''### Title'' = ''<h3>Title</h3>''"
    using t c by simp
  ultimately show ?thesis using a b c by blast
qed

section \<open>Lists\<close>

lemma isDigit_chars: "isDigit c \<Longrightarrow> c \<noteq> CHR ''*'' \<and> c \<noteq> backtick \<and> notLT c \<and> c \<noteq> CHR ''#''
  \<and> c \<noteq> CHR ''-'' \<and> c \<noteq> CHR ''.'' \<and> c \<noteq> CHR ''<'' \<and> c \<noteq> CHR ''_''"
  by (auto simp: isDigit_def backtick_def notLT_iff LF_def CR_def)

lemma itemLine_chars:
  assumes "validItem it"
  shows "list_all notLT (itemLine it)" and "backtick \<notin> set (itemLine it)" and "itemLine it \<noteq> []"
    and "hd (itemLine it) = CHR ''*'' \<or> isDigit (hd (itemLine it))"
proof -
  obtain m c where it: "it = (m, c)" by (cases it)
  from assms it have c: "\<forall>a \<in> set c. a \<noteq> backtick \<and> notLT a"
    by (simp add: list_all_iff)
  show "list_all notLT (itemLine it)"
  proof (cases m)
    case Bullet
    then show ?thesis using c by (simp add: it list_all_iff notLT_iff LF_def CR_def)
  next
    case (Numbered ds)
    with assms it have "\<forall>a \<in> set ds. notLT a" by (auto simp: list_all_iff dest: isDigit_chars)
    then show ?thesis using c by (auto simp: it Numbered list_all_iff notLT_iff LF_def CR_def)
  qed
  show "backtick \<notin> set (itemLine it)"
  proof (cases m)
    case Bullet
    then show ?thesis using c by (auto simp: it backtick_def)
  next
    case (Numbered ds)
    with assms it have "\<forall>a \<in> set ds. a \<noteq> backtick" by (auto simp: list_all_iff dest: isDigit_chars)
    then show ?thesis using c by (auto simp: it Numbered backtick_def)
  qed
  show "itemLine it \<noteq> []" using assms by (cases m) (simp_all add: it)
  show "hd (itemLine it) = CHR ''*'' \<or> isDigit (hd (itemLine it))"
  proof (cases m)
    case Bullet
    then show ?thesis by (simp add: it)
  next
    case (Numbered ds)
    with assms it obtain d ds' where "ds = d # ds'" "isDigit d" by (cases ds) auto
    then show ?thesis by (simp add: it Numbered)
  qed
qed

lemma itemLine_headings:
  assumes "validItem it"
  shows "h3Line (itemLine it) = itemLine it" "h2Line (itemLine it) = itemLine it"
    "h1Line (itemLine it) = itemLine it" "hrLine (itemLine it) = itemLine it"
proof -
  from itemLine_chars [OF assms] obtain a r where l: "itemLine it = a # r" and a: "a = CHR ''*'' \<or> isDigit a"
    by (cases "itemLine it") auto
  from a have "a \<noteq> CHR ''#''" "a \<noteq> CHR ''-''" by (auto dest: isDigit_chars)
  then show "h3Line (itemLine it) = itemLine it" "h2Line (itemLine it) = itemLine it"
    "h1Line (itemLine it) = itemLine it" "hrLine (itemLine it) = itemLine it"
    by (simp_all add: l h3Line_def h2Line_def h1Line_def hrLine_def)
qed

lemma itemLine_to_html:
  assumes "validItem it"
  shows "numberLine (bulletLine (itemLine it)) = itemHtml it"
proof -
  obtain m c where it: "it = (m, c)" by (cases it)
  show ?thesis
  proof (cases m)
    case Bullet
    with assms it have "c \<noteq> []" by simp
    then have "bulletLine (itemLine it) = ''<li>'' @ c @ ''</li>''"
      by (simp add: it Bullet bulletLine_def)
    then show ?thesis by (simp add: it itemHtml_def numberLine_def isDigit_def)
  next
    case (Numbered ds)
    with assms it have c: "c \<noteq> []" and ds: "ds \<noteq> []" "list_all isDigit ds" by simp_all
    from ds obtain d ds' where d: "ds = d # ds'" "isDigit d" by (cases ds) auto
    then have "d \<noteq> CHR ''*''" by (auto dest: isDigit_chars)
    then have b: "bulletLine (itemLine it) = ds @ ''. '' @ c"
      by (simp add: it Numbered bulletLine_def d)
    have nd: "\<not> isDigit (CHR ''.'')" by (simp add: isDigit_def)
    have t: "takeWhile isDigit (ds @ ''. '' @ c) = ds"
      using ds(2) nd by (simp add: takeWhile_append2 list_all_iff)
    have r: "dropWhile isDigit (ds @ ''. '' @ c) = ''. '' @ c"
      using ds(2) nd by (simp add: dropWhile_append3 list_all_iff)
    have "numberLine (ds @ ''. '' @ c) = ''<li>'' @ c @ ''</li>''"
      using c ds(1) unfolding numberLine_def t r Let_def by simp
    then show ?thesis unfolding b by (simp add: it itemHtml_def)
  qed
qed

lemma bulletLine_notLT: "list_all notLT l \<Longrightarrow> list_all notLT (bulletLine l)"
  by (auto simp: bulletLine_def list_all_iff notLT_iff LF_def CR_def dest: in_set_dropD)

lemma line_functions_Nil [simp]:
  "hrLine [] = []" "bulletLine [] = []" "numberLine [] = []"
  by (simp_all add: hrLine_def bulletLine_def numberLine_def)

lemma mapLines_joinLF_tail:
  assumes "ls \<noteq> []" and "\<forall>l \<in> set ls. list_all notLT l"
  shows "mapLines f (joinLF ls @ LF # r) = joinLF (map f ls) @ LF # mapLines f r"
  using assms
proof (induction ls)
  case Nil
  then show ?case by simp
next
  case (Cons l ls)
  have l: "list_all notLT l" using Cons.prems by simp
  show ?case
  proof (cases "ls = []")
    case True
    then show ?thesis using mapLines_line [OF l, of LF f r] by simp
  next
    case False
    with Cons have "mapLines f (joinLF ls @ LF # r) = joinLF (map f ls) @ LF # mapLines f r" by simp
    then show ?thesis
      using False mapLines_line [OF l, of LF f "joinLF ls @ LF # r"] by (simp add: joinLF_Cons)
  qed
qed

text \<open>Bold and italic leave a list line alone.\<close>

lemma lazyUntil_line_None:
  assumes "a \<notin> set u" and "rest = [] \<or> isLineTerminator (hd rest)" and "\<not> isLineTerminator a"
  shows "lazyUntil notLT [a] (u @ rest) = None"
  using assms(1)
proof (induction u)
  case Nil
  show ?case
  proof (cases rest)
    case Nil
    then show ?thesis by simp
  next
    case (Cons t r)
    with assms(2) have "isLineTerminator t" by simp
    with assms(3) have "t \<noteq> a" by auto
    then show ?thesis using Cons \<open>isLineTerminator t\<close> by (simp add: notLT_def)
  qed
next
  case (Cons c u)
  then show ?case by simp
qed

lemma italic_item_line:
  assumes "validItem it" and "rest = [] \<or> isLineTerminator (hd rest)"
  shows "replaceAll matchItalic (itemLine it @ rest) = itemLine it @ replaceAll matchItalic rest"
proof -
  obtain m c where it: "it = (m, c)" by (cases it)
  have star: "\<not> isLineTerminator (CHR ''*'')" by (simp add: isLineTerminator_def LF_def CR_def)
  show ?thesis
  proof (cases m)
    case Bullet
    have ns: "CHR ''*'' \<notin> set ('' '' @ c)" using assms(1) it by (auto simp: list_all_iff)
    have "lazyUntil notLT ''*'' (('' '' @ c) @ rest) = None"
      using ns assms(2) star by (rule lazyUntil_line_None)
    then have "matchItalic (''* '' @ c @ rest) = None" by (simp add: matchItalic_def)
    moreover have "replaceAll matchItalic (('' '' @ c) @ rest) = ('' '' @ c) @ replaceAll matchItalic rest"
      using matchItalic_hd ns by (rule replaceAll_skip_char)
    ultimately show ?thesis by (simp add: it Bullet)
  next
    case (Numbered ds)
    have "CHR ''*'' \<notin> set (itemLine it)"
      using assms(1) by (auto simp: it Numbered list_all_iff dest: isDigit_chars)
    with matchItalic_hd show ?thesis by (rule replaceAll_skip_char)
  qed
qed

lemma bold_item_line:
  assumes "validItem it"
  shows "replaceAll matchBold (itemLine it @ rest) = itemLine it @ replaceAll matchBold rest"
proof -
  obtain m c where it: "it = (m, c)" by (cases it)
  show ?thesis
  proof (cases m)
    case Bullet
    have ns: "CHR ''*'' \<notin> set ('' '' @ c)" using assms(1) it by (auto simp: list_all_iff)
    have "matchBold (''* '' @ c @ rest) = None" by (simp add: matchBold_def)
    moreover have "replaceAll matchBold (('' '' @ c) @ rest) = ('' '' @ c) @ replaceAll matchBold rest"
      using matchBold_hd ns by (rule replaceAll_skip_char)
    ultimately show ?thesis by (simp add: it Bullet)
  next
    case (Numbered ds)
    have "CHR ''*'' \<notin> set (itemLine it)"
      using assms(1) by (auto simp: it Numbered list_all_iff dest: isDigit_chars)
    with matchBold_hd show ?thesis by (rule replaceAll_skip_char)
  qed
qed

lemma replaceAll_item_lines:
  assumes step: "\<And>it rest. validItem it \<Longrightarrow> rest = [] \<or> isLineTerminator (hd rest) \<Longrightarrow>
      replaceAll m (itemLine it @ rest) = itemLine it @ replaceAll m rest"
    and lf: "\<And>r. m (LF # r) = None"
    and items: "items \<noteq> []" "list_all validItem items"
    and w: "w = [] \<or> hd w = LF"
  shows "replaceAll m (joinLF (map itemLine items) @ w) = joinLF (map itemLine items) @ replaceAll m w"
  using items
proof (induction items)
  case Nil
  then show ?case by simp
next
  case (Cons it items)
  have v: "validItem it" using Cons.prems by simp
  show ?case
  proof (cases "items = []")
    case True
    have "w = [] \<or> isLineTerminator (hd w)" using w by auto
    from step [OF v this] show ?thesis using True by simp
  next
    case False
    with Cons have ih: "replaceAll m (joinLF (map itemLine items) @ w)
        = joinLF (map itemLine items) @ replaceAll m w" by simp
    have "replaceAll m (itemLine it @ LF # joinLF (map itemLine items) @ w)
        = itemLine it @ replaceAll m (LF # joinLF (map itemLine items) @ w)"
      using step [OF v, of "LF # joinLF (map itemLine items) @ w"] by simp
    then show ?thesis using False ih lf by (simp add: joinLF_Cons)
  qed
qed

lemma splitParas_nonempty [simp]: "splitParas s \<noteq> []"
  by (induction s rule: splitParas.induct) (auto simp: Let_def)

lemma splitParas_prefix:
  "LF \<notin> set u \<Longrightarrow> splitParas (u @ w) = (u @ hd (splitParas w)) # tl (splitParas w)"
proof (induction u)
  case Nil
  then show ?case by simp
next
  case (Cons a u)
  then have ih: "splitParas (u @ w) = (u @ hd (splitParas w)) # tl (splitParas w)" and a: "a \<noteq> LF"
    by auto
  show ?case
  proof (cases "u @ w")
    case Nil
    then show ?thesis by simp
  next
    case (Cons b cs)
    then have "splitParas (a # u @ w) = (a # hd (splitParas (u @ w))) # tl (splitParas (u @ w))"
      using a by (simp add: Let_def)
    then show ?thesis using ih by simp
  qed
qed

lemma splitParas_LF_char:
  "c \<noteq> LF \<Longrightarrow> splitParas (LF # c # w) = (LF # hd (splitParas (c # w))) # tl (splitParas (c # w))"
  by (simp add: Let_def)

lemma itemHtml_chars: "validItem it \<Longrightarrow> LF \<notin> set (itemHtml it) \<and> list_all notLT (itemHtml it)"
  by (cases it) (auto simp: itemHtml_def list_all_iff notLT_iff LF_def CR_def)

lemma joinLF_items_hd:
  "items \<noteq> [] \<Longrightarrow> \<exists>r. joinLF (map itemHtml items) @ w = CHR ''<'' # CHR ''l'' # r"
proof (cases items)
  case Nil
  then show "items \<noteq> [] \<Longrightarrow> ?thesis" by simp
next
  case (Cons it its)
  then show ?thesis by (cases its) (simp_all add: itemHtml_def)
qed

lemma splitParas_items:
  assumes "items \<noteq> []" and "list_all validItem items"
  shows "splitParas (joinLF (map itemHtml items) @ w)
         = (joinLF (map itemHtml items) @ hd (splitParas w)) # tl (splitParas w)"
  using assms
proof (induction items)
  case Nil
  then show ?case by simp
next
  case (Cons it items)
  have lf: "LF \<notin> set (itemHtml it)" using Cons.prems itemHtml_chars by simp
  show ?case
  proof (cases "items = []")
    case True
    then show ?thesis using splitParas_prefix [OF lf] by simp
  next
    case False
    with Cons have ih: "splitParas (joinLF (map itemHtml items) @ w)
         = (joinLF (map itemHtml items) @ hd (splitParas w)) # tl (splitParas w)" by simp
    from joinLF_items_hd [OF False] obtain r where
      r: "joinLF (map itemHtml items) @ w = CHR ''<'' # CHR ''l'' # r" by blast
    have "CHR ''<'' \<noteq> LF" by (simp add: LF_def)
    then have "splitParas (LF # joinLF (map itemHtml items) @ w)
        = (LF # hd (splitParas (joinLF (map itemHtml items) @ w)))
          # tl (splitParas (joinLF (map itemHtml items) @ w))"
      unfolding r by (rule splitParas_LF_char)
    then have "splitParas (LF # joinLF (map itemHtml items) @ w)
        = (LF # joinLF (map itemHtml items) @ hd (splitParas w)) # tl (splitParas w)"
      using ih by simp
    then show ?thesis
      using False splitParas_prefix [OF lf, of "LF # joinLF (map itemHtml items) @ w"]
      by (simp add: joinLF_Cons)
  qed
qed

lemma wrapPara_items:
  "items \<noteq> [] \<Longrightarrow> wrapPara (joinLF (map itemHtml items)) = joinLF (map itemHtml items)"
  using joinLF_items_hd [of items "[]"] by (auto simp: wrapPara_def startsWithTag_def)

lemma wrapPara_plain:
  assumes "plainText s"
  shows "wrapPara s = ''<p>'' @ s @ ''</p>''"
proof -
  have "\<not> startsWithTag s"
    using assms by (cases s) (auto simp: plainText_def startsWithTag_def split: list.splits)
  moreover have "\<not> prefix ''__CODE_BLOCK_'' s"
    using assms by (cases s) (auto simp: plainText_def)
  moreover have "trim s \<noteq> []" using assms by (intro trim_nonempty) (auto simp: plainText_def)
  ultimately show ?thesis by (simp add: wrapPara_def)
qed

text \<open>The list regular expression on a run of items.\<close>

lemma greedyUntil_short: "length s < length d \<Longrightarrow> greedyUntil d s = None"
proof (induction s)
  case Nil
  then show ?case by auto
next
  case (Cons c s)
  then have "\<not> prefix d (c # s)" by (auto dest: prefix_length_le)
  then show ?case using Cons by simp
qed

lemma greedyUntil_last: "d \<noteq> [] \<Longrightarrow> greedyUntil d (c @ d) = Some (length c)"
proof (induction c)
  case Nil
  then obtain a d' where d: "d = a # d'" by (cases d) auto
  have "greedyUntil d d' = None" using d by (intro greedyUntil_short) simp
  then show ?case using d by simp
next
  case (Cons a c)
  then show ?case by simp
qed

lemma drop_length_append: "drop (length x) (x @ y) = y"
  by simp

lemma matchItem_item:
  assumes "validItem it" and "rest = [] \<or> isLineTerminator (hd rest)"
  shows "matchItem (itemHtml it @ rest)
         = Some (length (itemHtml it) + (if prefix [LF] rest then 1 else 0))"
proof -
  obtain m c where it: "it = (m, c)" by (cases it)
  have c: "\<forall>a \<in> set (c @ ''</li>''). notLT a"
    using assms(1) it by (auto simp: list_all_iff notLT_iff LF_def CR_def)
  have "takeWhile notLT ((c @ ''</li>'') @ rest) = c @ ''</li>''"
  proof (cases rest)
    case Nil
    then show ?thesis using c by (simp add: takeWhile_eq_all_conv)
  next
    case (Cons t r)
    with assms(2) have "\<not> notLT t" by (simp add: notLT_def)
    then show ?thesis using c Cons by (simp add: takeWhile_append2)
  qed
  then have t: "takeWhile notLT (c @ ''</li>'' @ rest) = c @ ''</li>''" by simp
  have g: "greedyUntil ''</li>'' (c @ ''</li>'') = Some (length c)"
    by (rule greedyUntil_last) simp
  have l: "length c + 9 = length (''<li>'' @ c @ ''</li>'')" by simp
  have "drop (length c + 9) ((''<li>'' @ c @ ''</li>'') @ rest) = rest"
    unfolding l by (rule drop_length_append)
  then have d: "drop (length c + 9) (''<li>'' @ c @ ''</li>'' @ rest) = rest" by simp
  show ?thesis
    unfolding it itemHtml_def matchItem_def
    using t g d by (simp add: add.commute)
qed

lemma matchItems_None: "matchItem s = None \<Longrightarrow> matchItems s = 0"
  by (subst matchItems.simps) simp

lemma matchItems_Some: "matchItem s = Some n \<Longrightarrow> matchItems s = n + matchItems (drop n s)"
  by (subst matchItems.simps) simp

lemma matchItems_items_tail:
  assumes "list_all validItem items" and "matchItem w = None" and "items \<noteq> []"
  shows "matchItems (joinLF (map itemHtml items) @ LF # w) = length (joinLF (map itemHtml items)) + 1"
  using assms(1,3)
proof (induction items)
  case Nil
  then show ?case by simp
next
  case (Cons it items)
  have v: "validItem it" using Cons.prems by simp
  show ?case
  proof (cases "items = []")
    case True
    have "matchItem (itemHtml it @ LF # w) = Some (length (itemHtml it) + 1)"
      using matchItem_item [OF v, of "LF # w"] by simp
    from matchItems_Some [OF this] show ?thesis
      using True matchItems_None [OF assms(2)] by simp
  next
    case False
    let ?r = "joinLF (map itemHtml items) @ LF # w"
    have "matchItem (itemHtml it @ LF # ?r) = Some (length (itemHtml it) + 1)"
      using matchItem_item [OF v, of "LF # ?r"] by simp
    from matchItems_Some [OF this] show ?thesis
      using False Cons.IH Cons.prems by (simp add: joinLF_Cons)
  qed
qed

lemma matchItems_items:
  assumes "list_all validItem items" and "items \<noteq> []"
  shows "matchItems (joinLF (map itemHtml items)) = length (joinLF (map itemHtml items))"
  using assms
proof (induction items)
  case Nil
  then show ?case by simp
next
  case (Cons it items)
  have v: "validItem it" using Cons.prems by simp
  have e: "matchItem [] = None" by (simp add: matchItem_def)
  show ?case
  proof (cases "items = []")
    case True
    have "matchItem (itemHtml it @ []) = Some (length (itemHtml it))"
      using matchItem_item [OF v, of "[]"] by simp
    from matchItems_Some [OF this] show ?thesis
      using True matchItems_None [OF e] by simp
  next
    case False
    let ?r = "joinLF (map itemHtml items)"
    have "matchItem (itemHtml it @ LF # ?r) = Some (length (itemHtml it) + 1)"
      using matchItem_item [OF v, of "LF # ?r"] by simp
    from matchItems_Some [OF this] show ?thesis
      using False Cons.IH Cons.prems by (simp add: joinLF_Cons)
  qed
qed

lemma set_joinLF: "set (joinLF ls) \<subseteq> insert LF (\<Union>l \<in> set ls. set l)"
  by (induction ls rule: joinLF.induct) auto

lemma joinLF_items_no_char:
  assumes "list_all validItem items" and "a = backtick"
  shows "a \<notin> set (joinLF (map itemLine items))"
proof -
  have "a \<noteq> LF" using assms(2) by (simp add: backtick_def LF_def)
  moreover have "\<forall>l \<in> set (map itemLine items). a \<notin> set l"
    using assms itemLine_chars(2) by (auto simp: list_all_iff)
  ultimately show ?thesis using set_joinLF [of "map itemLine items"] by auto
qed

lemma item_lines_notLT:
  "list_all validItem items \<Longrightarrow> \<forall>l \<in> set (map itemLine items). list_all notLT l"
  using itemLine_chars(1) by (auto simp: list_all_iff)

lemma item_lines_bullet_notLT:
  assumes "list_all validItem items"
  shows "\<forall>l \<in> set (map bulletLine (map itemLine items)). list_all notLT l"
proof
  note v = assms
  fix l assume "l \<in> set (map bulletLine (map itemLine items))"
  then obtain it where "it \<in> set items" and l: "l = bulletLine (itemLine it)" by auto
  with v have "validItem it" by (simp add: list_all_iff)
  then have "list_all notLT (itemLine it)" by (rule itemLine_chars)
  then show "list_all notLT l" unfolding l by (rule bulletLine_notLT)
qed

lemma item_lines_headings:
  assumes "list_all validItem items"
  shows "map h3Line (map itemLine items) = map itemLine items"
    "map h2Line (map itemLine items) = map itemLine items"
    "map h1Line (map itemLine items) = map itemLine items"
    "map hrLine (map itemLine items) = map itemLine items"
  using assms itemLine_headings by (auto simp: list_all_iff)

lemma item_lines_to_html:
  assumes "list_all validItem items"
  shows "map numberLine (map bulletLine (map itemLine items)) = map itemHtml items"
  using assms itemLine_to_html by (auto simp: list_all_iff)

lemma matchList_LF: "matchBold (LF # r) = None" "matchItalic (LF # r) = None"
  by (simp_all add: matchBold_def matchItalic_def LF_def)

lemma bold_items:
  assumes "items \<noteq> []" and "list_all validItem items" and "w = [] \<or> hd w = LF"
  shows "replaceAll matchBold (joinLF (map itemLine items) @ w)
         = joinLF (map itemLine items) @ replaceAll matchBold w"
proof (rule replaceAll_item_lines)
  show "\<And>it rest. validItem it \<Longrightarrow> rest = [] \<or> isLineTerminator (hd rest) \<Longrightarrow>
      replaceAll matchBold (itemLine it @ rest) = itemLine it @ replaceAll matchBold rest"
    by (rule bold_item_line)
  show "\<And>r. matchBold (LF # r) = None" by (rule matchList_LF)
  show "items \<noteq> []" "list_all validItem items" "w = [] \<or> hd w = LF" by fact+
qed

lemma italic_items:
  assumes "items \<noteq> []" and "list_all validItem items" and "w = [] \<or> hd w = LF"
  shows "replaceAll matchItalic (joinLF (map itemLine items) @ w)
         = joinLF (map itemLine items) @ replaceAll matchItalic w"
proof (rule replaceAll_item_lines)
  show "\<And>it rest. validItem it \<Longrightarrow> rest = [] \<or> isLineTerminator (hd rest) \<Longrightarrow>
      replaceAll matchItalic (itemLine it @ rest) = itemLine it @ replaceAll matchItalic rest"
    by (rule italic_item_line)
  show "\<And>r. matchItalic (LF # r) = None" by (rule matchList_LF)
  show "items \<noteq> []" "list_all validItem items" "w = [] \<or> hd w = LF" by fact+
qed

lemma replaceAll_matchList_run:
  assumes n: "matchItems z = length u" and z: "z = u @ r" and u: "u \<noteq> []"
  shows "replaceAll matchList z = ''<ul>'' @ u @ ''</ul>'' @ replaceAll matchList r"
proof -
  have "matchList z = Some (''<ul>'' @ u @ ''</ul>'', length u)"
    using n z u by (simp add: matchList_def)
  then have "replaceAll matchList z = (''<ul>'' @ u @ ''</ul>'') @ replaceAll matchList (drop (length u) z)"
    using u z by (intro replaceAll_match) auto
  then show ?thesis using z by simp
qed

lemma render_list:
  assumes ne: "items \<noteq> []" and v: "list_all validItem items"
  shows "markdownToHtml (joinLF (map itemLine items)) = ''<ul>'' @ joinLF (map itemHtml items) @ ''</ul>''"
proof -
  let ?L = "map itemLine items"
  let ?D = "joinLF ?L"
  let ?H = "joinLF (map itemHtml items)"
  have L: "?L \<noteq> []" using ne by simp
  have nb: "backtick \<notin> set ?D" using v by (intro joinLF_items_no_char) simp_all
  have e: "extractCodeBlocks 0 ?D = (?D, [])" using nb by (rule extractCodeBlocks_no_backtick)
  have h3: "mapLines h3Line ?D = ?D"
    using mapLines_joinLF [OF L item_lines_notLT [OF v], of h3Line] by (simp only: item_lines_headings [OF v])
  have h2: "mapLines h2Line ?D = ?D"
    using mapLines_joinLF [OF L item_lines_notLT [OF v], of h2Line] by (simp only: item_lines_headings [OF v])
  have h1: "mapLines h1Line ?D = ?D"
    using mapLines_joinLF [OF L item_lines_notLT [OF v], of h1Line] by (simp only: item_lines_headings [OF v])
  have hr: "mapLines hrLine ?D = ?D"
    using mapLines_joinLF [OF L item_lines_notLT [OF v], of hrLine] by (simp only: item_lines_headings [OF v])
  have b: "replaceAll matchBold ?D = ?D"
    using bold_items [OF ne v, of "[]"] by simp
  have i: "replaceAll matchItalic ?D = ?D"
    using italic_items [OF ne v, of "[]"] by simp
  have c: "replaceAll matchInlineCode ?D = ?D" using matchInlineCode_hd nb by (rule replaceAll_id_char)
  have bl: "mapLines bulletLine ?D = joinLF (map bulletLine ?L)"
    using L item_lines_notLT [OF v] by (rule mapLines_joinLF)
  have "map bulletLine ?L \<noteq> []" using ne by simp
  then have "mapLines numberLine (joinLF (map bulletLine ?L)) = joinLF (map numberLine (map bulletLine ?L))"
    using item_lines_bullet_notLT [OF v] by (rule mapLines_joinLF)
  then have nl: "mapLines numberLine (joinLF (map bulletLine ?L)) = ?H"
    by (simp only: item_lines_to_html [OF v])
  have sp: "splitParas ?H = [?H]" using splitParas_items [OF ne v, of "[]"] by simp
  have w: "wrapPara ?H = ?H" using ne by (rule wrapPara_items)
  have "?H \<noteq> []" using joinLF_items_hd [OF ne, of "[]"] by auto
  then have u: "replaceAll matchList ?H = ''<ul>'' @ ?H @ ''</ul>'' @ replaceAll matchList []"
    using matchItems_items [OF v ne] by (intro replaceAll_matchList_run) simp_all
  show ?thesis
    unfolding markdownToHtml_def e
    by (simp add: h3 h2 h1 hr b i c bl nl sp w u del: map_map)
qed

lemma render_list_para:
  assumes ne: "items \<noteq> []" and v: "list_all validItem items" and t: "plainText text"
  shows "markdownToHtml (joinLF (map itemLine items) @ [LF, LF] @ text)
         = ''<ul>'' @ joinLF (map itemHtml items) @ [LF] @ ''</ul><p>'' @ text @ ''</p>''"
proof -
  let ?L = "map itemLine items"
  let ?D = "joinLF ?L @ LF # LF # text"
  let ?H = "joinLF (map itemHtml items)"
  have L: "?L \<noteq> []" using ne by simp
  have tb: "backtick \<notin> set text" and ts: "CHR ''*'' \<notin> set text" and tl: "CHR ''<'' \<notin> set text"
    and tt: "list_all notLT text"
    using t by (auto simp: plainText_def list_all_iff)
  have "backtick \<notin> set (joinLF ?L)" using v by (intro joinLF_items_no_char) simp_all
  then have nb: "backtick \<notin> set ?D" using tb by (simp add: backtick_def LF_def)
  have e: "extractCodeBlocks 0 ?D = (?D, [])" using nb by (rule extractCodeBlocks_no_backtick)
  have tail: "\<And>f. f [] = [] \<Longrightarrow> mapLines f (LF # text) = LF # f text"
  proof -
    fix f :: "string \<Rightarrow> string"
    assume "f [] = []"
    then show "mapLines f (LF # text) = LF # f text"
      using mapLines_line [of "[]" LF f "text"] by (simp add: mapLines_no_terminator [OF tt])
  qed
  have h3: "mapLines h3Line ?D = ?D"
    using mapLines_joinLF_tail [OF L item_lines_notLT [OF v], of h3Line "LF # text"]
    by (simp only: item_lines_headings [OF v] tail heading_lines_Nil plain_lines [OF t])
  have h2: "mapLines h2Line ?D = ?D"
    using mapLines_joinLF_tail [OF L item_lines_notLT [OF v], of h2Line "LF # text"]
    by (simp only: item_lines_headings [OF v] tail heading_lines_Nil plain_lines [OF t])
  have h1: "mapLines h1Line ?D = ?D"
    using mapLines_joinLF_tail [OF L item_lines_notLT [OF v], of h1Line "LF # text"]
    by (simp only: item_lines_headings [OF v] tail heading_lines_Nil plain_lines [OF t])
  have hr: "mapLines hrLine ?D = ?D"
    using mapLines_joinLF_tail [OF L item_lines_notLT [OF v], of hrLine "LF # text"]
    by (simp only: item_lines_headings [OF v] tail line_functions_Nil plain_lines [OF t])
  have ws: "CHR ''*'' \<notin> set (LF # LF # text)" using ts by (simp add: LF_def)
  have b: "replaceAll matchBold ?D = ?D"
    using bold_items [OF ne v, of "LF # LF # text"] replaceAll_id_char [OF matchBold_hd ws] by simp
  have i: "replaceAll matchItalic ?D = ?D"
    using italic_items [OF ne v, of "LF # LF # text"] replaceAll_id_char [OF matchItalic_hd ws] by simp
  have c: "replaceAll matchInlineCode ?D = ?D" using matchInlineCode_hd nb by (rule replaceAll_id_char)
  have bl: "mapLines bulletLine ?D = joinLF (map bulletLine ?L) @ LF # LF # text"
    using mapLines_joinLF_tail [OF L item_lines_notLT [OF v], of bulletLine "LF # text"]
    by (simp only: tail line_functions_Nil plain_lines [OF t])
  have "map bulletLine ?L \<noteq> []" using ne by simp
  from mapLines_joinLF_tail [OF this item_lines_bullet_notLT [OF v], of numberLine "LF # text"]
  have nl: "mapLines numberLine (joinLF (map bulletLine ?L) @ LF # LF # text) = ?H @ LF # LF # text"
    by (simp only: item_lines_to_html [OF v] tail line_functions_Nil plain_lines [OF t])
  have "LF \<notin> set text" using tt by (auto simp: list_all_iff notLT_iff)
  then have "splitParas (LF # LF # text) = [[], text]" by (simp add: splitParas_no_LF)
  then have sp: "splitParas (?H @ LF # LF # text) = [?H, text]"
    using splitParas_items [OF ne v, of "LF # LF # text"] by simp
  have w: "wrapPara ?H = ?H" using ne by (rule wrapPara_items)
  have wt: "wrapPara text = ''<p>'' @ text @ ''</p>''" using t by (rule wrapPara_plain)
  let ?P = "''<p>'' @ text @ ''</p>''"
  have mp: "matchItem ?P = None" by (simp add: matchItem_def)
  have up: "replaceAll matchList (?P @ []) = ?P @ replaceAll matchList []"
    using replaceAll_matchList_para [OF tl, of "[]"] by simp
  have "matchItems (?H @ LF # ?P) = length (?H @ [LF])"
    using matchItems_items_tail [OF v mp ne] by simp
  then have "replaceAll matchList (?H @ LF # ?P) = ''<ul>'' @ (?H @ [LF]) @ ''</ul>'' @ replaceAll matchList ?P"
    by (intro replaceAll_matchList_run) simp_all
  then have u: "replaceAll matchList (?H @ LF # ?P) = ''<ul>'' @ ?H @ [LF] @ ''</ul>'' @ ?P"
    using up by simp
  have j: "joinLF (map wrapPara [?H, text]) = ?H @ LF # ?P" by (simp add: w wt)
  have "markdownToHtml ?D = replaceAll matchList (?H @ LF # ?P)"
    unfolding markdownToHtml_def e
    by (simp add: h3 h2 h1 hr b i c bl nl sp w wt del: map_map)
  then show ?thesis using u by simp
qed

text \<open>
  C8: the claim asks that every run of list-item lines becomes one list. The italic
  replacement runs before the two list replacements, so on a bulleted line that holds
  another asterisk it takes the bullet for the opening of an emphasis, and the line is
  no list item any more: of the two bulleted lines below only the first ends in the
  list. (The input of the specification, whose items hold no asterisk, is rendered as
  the claim says.)
\<close>

theorem bullet_line_with_emphasis_not_listed:
  "markdownToHtml (''* plain'' @ [LF] @ ''* with *em* text'')
     = ''<ul><li>plain</li>'' @ [LF] @ ''</ul><em> with </em>em* text''
   \<and> markdownToHtml (''* a'' @ [LF] @ ''* b'' @ [LF, LF] @ ''text'')
     = ''<ul><li>a</li>'' @ [LF] @ ''<li>b</li>'' @ [LF] @ ''</ul><p>text</p>''"
  by code_simp

section \<open>Fenced code blocks\<close>

subsection \<open>Placeholders in a text\<close>

lemma digitChar_isDigit: "n < 10 \<Longrightarrow> isDigit (digitChar n)"
proof -
  assume "n < 10"
  then have "n \<in> {0, 1, 2, 3, 4, 5, 6, 7, 8, 9}" by auto
  then show ?thesis by (auto simp: digitChar_def isDigit_def)
qed

lemma showNat_digits: "list_all isDigit (showNat n)"
proof (induction n rule: showNat.induct)
  case (1 n)
  show ?case
  proof (cases "n < 10")
    case True
    then show ?thesis by (subst showNat.simps) (simp add: digitChar_isDigit)
  next
    case False
    then have "list_all isDigit (showNat (n div 10))" using 1 by simp
    moreover have "isDigit (digitChar (n mod 10))" by (rule digitChar_isDigit) simp
    ultimately show ?thesis using False by (subst showNat.simps) simp
  qed
qed

lemma placeholder_chars: "list_all phChar (placeholder i)"
  using showNat_digits [of i] by (auto simp: placeholder_def phChar_def list_all_iff)

lemma placeholder_nonempty [simp]: "placeholder i \<noteq> []"
  by (simp add: placeholder_def)

lemma placeholder_underscore: "CHR ''_'' \<in> set (placeholder i)"
  by (simp add: placeholder_def)

lemma isPlaceholder_props:
  assumes "isPlaceholder p"
  shows "p \<noteq> []" and "list_all phChar p" and "CHR ''_'' \<in> set p"
  using assms placeholder_chars placeholder_underscore by (auto simp: isPlaceholder_def)

lemma inOrder_prepend: "inOrder ps v \<Longrightarrow> inOrder ps (x @ v)"
proof (cases ps)
  case Nil
  then show ?thesis by simp
next
  case (Cons p ps')
  assume "inOrder ps v"
  then obtain g r where "v = g @ p @ r" "inOrder ps' r" using Cons by auto
  then have "x @ v = (x @ g) @ p @ r \<and> inOrder ps' r" by simp
  then show ?thesis unfolding Cons inOrder.simps by blast
qed

lemma inOrder_combine:
  "inOrder ps1 u \<Longrightarrow> inOrder ps2 v \<Longrightarrow> inOrder (ps1 @ ps2) (u @ x @ v)"
proof (induction ps1 arbitrary: u)
  case Nil
  then show ?case using inOrder_prepend [of ps2 v "u @ x"] by simp
next
  case (Cons p ps1)
  from Cons.prems(1) obtain g r where u: "u = g @ p @ r" and r: "inOrder ps1 r" by auto
  have "inOrder (ps1 @ ps2) (r @ x @ v)" using Cons.IH [OF r Cons.prems(2)] .
  moreover have "u @ x @ v = g @ p @ (r @ x @ v)" using u by simp
  ultimately show ?case by (simp only: append_Cons inOrder.simps) blast
qed

lemma inOrder_append: "inOrder ps u \<Longrightarrow> inOrder ps (u @ x)"
  using inOrder_combine [of ps u "[]" "[]" x] by simp

lemma inOrder_wrap: "inOrder ps u \<Longrightarrow> inOrder ps (x @ u @ y)"
  by (intro inOrder_prepend inOrder_append)

text \<open>A string that lacks a character of every placeholder holds none.\<close>

lemma inOrder_no_room:
  assumes "inOrder ps z" and "\<forall>p \<in> set ps. isPlaceholder p" and "CHR ''_'' \<notin> set z"
  shows "ps = []"
proof (cases ps)
  case Nil
  then show ?thesis .
next
  case (Cons p ps')
  with assms(1) obtain g r where "z = g @ p @ r" by auto
  moreover have "CHR ''_'' \<in> set p" using assms(2) Cons isPlaceholder_props(3) by simp
  ultimately show ?thesis using assms(3) by simp
qed

text \<open>
  A placeholder cannot lie across a separator, a string of characters that no placeholder
  holds: the placeholders before it stand in the part before, the others in the part behind.
\<close>

lemma inOrder_split:
  assumes "inOrder ps (u @ d @ v)" and "\<forall>p \<in> set ps. isPlaceholder p"
    and "d \<noteq> []" and "\<forall>c \<in> set d. \<not> phChar c"
  shows "\<exists>ps1 ps2. ps = ps1 @ ps2 \<and> inOrder ps1 u \<and> inOrder ps2 v"
  using assms(1,2)
proof (induction ps arbitrary: u)
  case Nil
  then show ?case by simp
next
  case (Cons p ps)
  from Cons.prems(1) obtain g r where z: "u @ d @ v = g @ p @ r" and r: "inOrder ps r" by auto
  have p: "p \<noteq> []" "\<forall>c \<in> set p. phChar c"
    using Cons.prems(2) isPlaceholder_props [of p] by (simp_all add: list_all_iff)
  have ps: "\<forall>q \<in> set ps. isPlaceholder q" using Cons.prems(2) by simp
  consider (left) "length g + length p \<le> length u"
    | (right) "length u + length d \<le> length g"
    | (overlap) "length u < length g + length p" "length g < length u + length d"
    by linarith
  then show ?case
  proof cases
    case left
    define u' where "u' = drop (length g + length p) u"
    have "take (length g + length p) (u @ d @ v) = take (length g + length p) (g @ p @ r)"
      using z by simp
    then have "take (length g + length p) u = g @ p" using left by simp
    then have u: "u = g @ p @ u'" unfolding u'_def by (metis append.assoc append_take_drop_id)
    with z have "r = u' @ d @ v" by simp
    with r have "inOrder ps (u' @ d @ v)" by simp
    from Cons.IH [OF this ps] obtain ps1 ps2 where
      s: "ps = ps1 @ ps2" "inOrder ps1 u'" "inOrder ps2 v" by blast
    have "inOrder (p # ps1) u" using u s(2) by auto
    then show ?thesis using s by (metis append_Cons)
  next
    case right
    define g' where "g' = drop (length u + length d) g"
    have "take (length u + length d) (u @ d @ v) = take (length u + length d) (g @ p @ r)"
      using z by simp
    then have "u @ d = take (length u + length d) g" using right by simp
    then have g: "g = u @ d @ g'" unfolding g'_def by (metis append.assoc append_take_drop_id)
    with z have "v = g' @ p @ r" by simp
    with r have "inOrder (p # ps) v" by auto
    then have "p # ps = [] @ (p # ps) \<and> inOrder [] u \<and> inOrder (p # ps) v" by simp
    then show ?thesis by blast
  next
    case overlap
    define i where "i = max (length g) (length u)"
    have i: "length u \<le> i" "i < length u + length d" "length g \<le> i" "i < length g + length p"
      using overlap assms(3) p(1) unfolding i_def by (auto simp: max_def)
    have id: "i - length u < length d" and ip: "i - length g < length p" using i by linarith+
    have "(u @ d @ v) ! i = (d @ v) ! (i - length u)" using i by (simp add: nth_append)
    then have "(u @ d @ v) ! i = d ! (i - length u)" using id by (simp add: nth_append)
    moreover have "(g @ p @ r) ! i = (p @ r) ! (i - length g)" using i by (simp add: nth_append)
    then have "(g @ p @ r) ! i = p ! (i - length g)" using ip by (simp add: nth_append)
    ultimately have "d ! (i - length u) = p ! (i - length g)" using z by simp
    moreover have "d ! (i - length u) \<in> set d" using id by (rule nth_mem)
    moreover have "p ! (i - length g) \<in> set p" using ip by (rule nth_mem)
    ultimately show ?thesis using assms(4) p(2) by metis
  qed
qed

lemma inOrder_Nil_string: "inOrder ps [] \<Longrightarrow> \<forall>p \<in> set ps. isPlaceholder p \<Longrightarrow> ps = []"
  using inOrder_no_room [of ps "[]"] by simp

text \<open>Behind a leading separator.\<close>

lemma inOrder_drop_separator:
  assumes "inOrder ps (d @ v)" and "\<forall>p \<in> set ps. isPlaceholder p"
    and "d \<noteq> []" and "\<forall>c \<in> set d. \<not> phChar c"
  shows "inOrder ps v"
proof -
  from inOrder_split [of ps "[]" d v] assms obtain ps1 ps2 where
    s: "ps = ps1 @ ps2" "inOrder ps1 []" "inOrder ps2 v" by auto
  have "ps1 = []" using s(1,2) assms(2) by (intro inOrder_Nil_string) auto
  then show ?thesis using s by simp
qed

subsection \<open>The substitutions keep the placeholders\<close>

lemma not_phChar [simp]:
  "\<not> phChar (CHR ''#'')" "\<not> phChar (CHR '' '')" "\<not> phChar (CHR ''*'')" "\<not> phChar backtick"
  "\<not> phChar (CHR ''-'')" "\<not> phChar (CHR ''.'')" "\<not> phChar LF" "\<not> phChar CR"
  "\<not> phChar (CHR ''<'')" "\<not> phChar (CHR ''>'')"
  by (simp_all add: phChar_def isDigit_def backtick_def LF_def CR_def)

lemma not_phChar_LT: "isLineTerminator t \<Longrightarrow> \<not> phChar t"
  by (auto simp: isLineTerminator_def)

lemma inOrder_mapLines:
  assumes "\<And>l qs. \<forall>p \<in> set qs. isPlaceholder p \<Longrightarrow> inOrder qs l \<Longrightarrow> inOrder qs (f l)"
    and "\<forall>p \<in> set ps. isPlaceholder p" and "inOrder ps s"
  shows "inOrder ps (mapLines f s)"
  using assms
proof (induction f s arbitrary: ps rule: mapLines.induct)
  case (1 f s)
  note line = "1.prems"(1)
  show ?case
  proof (cases "dropWhile (\<lambda>c. \<not> isLineTerminator c) s")
    case Nil
    have "mapLines f s = f s" by (subst mapLines.simps) (simp only: Nil list.case)
    then show ?thesis using line [OF "1.prems"(2,3)] by simp
  next
    case (Cons t r)
    define l where "l = takeWhile (\<lambda>c. \<not> isLineTerminator c) s"
    have s: "s = l @ [t] @ r"
      using Cons l_def by (metis append_Cons append_Nil takeWhile_dropWhile_id)
    have t: "isLineTerminator t"
      using Cons by (metis (mono_tags, lifting) hd_dropWhile list.distinct(1) list.sel(1))
    have m: "mapLines f s = f l @ [t] @ mapLines f r"
      by (subst mapLines.simps) (simp add: Cons l_def)
    have "inOrder ps (l @ [t] @ r)" using "1.prems"(3) s by simp
    then obtain ps1 ps2 where p: "ps = ps1 @ ps2" "inOrder ps1 l" "inOrder ps2 r"
      using inOrder_split [of ps l "[t]" r] "1.prems"(2) not_phChar_LT [OF t] by auto
    have "inOrder ps1 (f l)" using line [of ps1 l] p "1.prems"(2) by auto
    moreover have "inOrder ps2 (mapLines f r)"
      using "1.IH" [OF Cons line, of ps2] p "1.prems"(2) by auto
    ultimately show ?thesis unfolding m p(1) by (rule inOrder_combine)
  qed
qed

lemma inOrder_strip_prefix:
  assumes "\<forall>p \<in> set ps. isPlaceholder p" and "inOrder ps l" and "prefix d l" and "d \<noteq> []"
    and "\<forall>c \<in> set d. \<not> phChar c" and "n = length d"
  shows "inOrder ps (x @ drop n l @ y)"
proof -
  from assms(3) obtain r where l: "l = d @ r" by (auto simp: prefix_def)
  then have "inOrder ps r" using inOrder_drop_separator [of ps d r] assms by simp
  then show ?thesis unfolding l assms(6) by (simp add: inOrder_wrap)
qed

lemma inOrder_h3Line:
  "\<forall>p \<in> set ps. isPlaceholder p \<Longrightarrow> inOrder ps l \<Longrightarrow> inOrder ps (h3Line l)"
  using inOrder_strip_prefix [of ps l "''### ''" 4 "''<h3>''" "''</h3>''"] by (simp add: h3Line_def)

lemma inOrder_h2Line:
  "\<forall>p \<in> set ps. isPlaceholder p \<Longrightarrow> inOrder ps l \<Longrightarrow> inOrder ps (h2Line l)"
  using inOrder_strip_prefix [of ps l "''## ''" 3 "''<h2>''" "''</h2>''"] by (simp add: h2Line_def)

lemma inOrder_h1Line:
  "\<forall>p \<in> set ps. isPlaceholder p \<Longrightarrow> inOrder ps l \<Longrightarrow> inOrder ps (h1Line l)"
  using inOrder_strip_prefix [of ps l "''# ''" 2 "''<h1>''" "''</h1>''"] by (simp add: h1Line_def)

lemma inOrder_bulletLine:
  "\<forall>p \<in> set ps. isPlaceholder p \<Longrightarrow> inOrder ps l \<Longrightarrow> inOrder ps (bulletLine l)"
  using inOrder_strip_prefix [of ps l "''* ''" 2 "''<li>''" "''</li>''"] by (simp add: bulletLine_def)

lemma inOrder_hrLine:
  assumes "\<forall>p \<in> set ps. isPlaceholder p" and "inOrder ps l"
  shows "inOrder ps (hrLine l)"
proof (cases "l = ''---''")
  case True
  then have "ps = []" using inOrder_no_room [of ps l] assms by simp
  then show ?thesis by simp
next
  case False
  then show ?thesis using assms(2) by (simp add: hrLine_def)
qed

lemma inOrder_numberLine:
  assumes "\<forall>p \<in> set ps. isPlaceholder p" and "inOrder ps l"
  shows "inOrder ps (numberLine l)"
proof (cases "takeWhile isDigit l \<noteq> [] \<and> prefix ''. '' (dropWhile isDigit l) \<and> 2 < length (dropWhile isDigit l)")
  case True
  then obtain r where r: "dropWhile isDigit l = ''. '' @ r" by (auto simp: prefix_def)
  define ds where "ds = takeWhile isDigit l"
  have l: "l = ds @ ''. '' @ r" using r ds_def by (metis takeWhile_dropWhile_id)
  have "CHR ''_'' \<notin> set ds" unfolding ds_def by (auto dest!: set_takeWhileD simp: isDigit_def)
  from inOrder_split [of ps ds "''. ''" r] assms l obtain ps1 ps2 where
    p: "ps = ps1 @ ps2" "inOrder ps1 ds" "inOrder ps2 r" by auto
  have "ps1 = []" using inOrder_no_room [of ps1 ds] p assms(1) \<open>CHR ''_'' \<notin> set ds\<close> by auto
  then have "inOrder ps r" using p by simp
  then have "inOrder ps (''<li>'' @ r @ ''</li>'')" by (rule inOrder_wrap)
  then show ?thesis using True r by (simp add: numberLine_def Let_def)
next
  case False
  then show ?thesis using assms(2) by (auto simp: numberLine_def Let_def)
qed

text \<open>
  A global replace whose matches are a captured text between two delimiters without
  placeholder characters, replaced by the captured text between two tags.
\<close>

lemma inOrder_replaceAll:
  assumes mp: "\<And>s rep n. m s = Some (rep, n) \<Longrightarrow>
      \<exists>d1 x d2 r1 r2 rest. s = d1 @ x @ d2 @ rest \<and> n = length (d1 @ x @ d2) \<and> rep = r1 @ x @ r2
        \<and> d1 \<noteq> [] \<and> d2 \<noteq> [] \<and> (\<forall>c \<in> set d1. \<not> phChar c) \<and> (\<forall>c \<in> set d2. \<not> phChar c)"
    and "\<forall>p \<in> set ps. isPlaceholder p" and "inOrder ps s"
  shows "inOrder ps (replaceAll m s)"
  using assms(2,3)
proof (induction "length s" arbitrary: s ps rule: less_induct)
  case less
  show ?case
  proof (cases s)
    case Nil
    then show ?thesis using less.prems by simp
  next
    case (Cons c cs)
    show ?thesis
    proof (cases "m s")
      case (Some a)
      obtain rep n where a: "a = (rep, n)" by (cases a)
      from mp [of s rep n] Some a obtain d1 x d2 r1 r2 rest where
        d: "s = d1 @ x @ d2 @ rest" "n = length (d1 @ x @ d2)" "rep = r1 @ x @ r2"
          "d1 \<noteq> []" "d2 \<noteq> []" "\<forall>c \<in> set d1. \<not> phChar c" "\<forall>c \<in> set d2. \<not> phChar c"
        by blast
      have dr: "drop n s = rest" using d(1,2) by simp
      have n: "0 < n" using d(2,4) by simp
      have "replaceAll m s = rep @ replaceAll m (drop n s)"
        using Some a n Cons by (intro replaceAll_match) simp_all
      then have out: "replaceAll m s = (r1 @ x) @ r2 @ replaceAll m rest" using dr d(3) by simp
      have "inOrder ps (x @ d2 @ rest)"
        using inOrder_drop_separator [of ps d1 "x @ d2 @ rest"] less.prems d by simp
      then obtain ps1 ps2 where p: "ps = ps1 @ ps2" "inOrder ps1 x" "inOrder ps2 rest"
        using inOrder_split [of ps x d2 rest] less.prems(1) d by auto
      have "length rest < length s" using d(1,4) by simp
      then have "inOrder ps2 (replaceAll m rest)" using less.hyps [of rest ps2] p less.prems(1) by auto
      with inOrder_prepend [OF p(2), of r1] show ?thesis unfolding out p(1) by (rule inOrder_combine)
    next
      case None
      have nomatch: "m t = None" if "t \<noteq> []" "phChar (hd t)" for t
      proof (rule ccontr)
        assume "m t \<noteq> None"
        then obtain rep n where "m t = Some (rep, n)" by auto
        from mp [OF this] obtain d1 r where "t = d1 @ r" "d1 \<noteq> []" "\<forall>c \<in> set d1. \<not> phChar c" by auto
        then have "\<not> phChar (hd t)" by (cases d1) auto
        with that show False by simp
      qed
      show ?thesis
      proof (cases ps)
        case Nil
        then show ?thesis by simp
      next
        case (Cons p ps')
        with less.prems obtain g r where z: "s = g @ p @ r" and r: "inOrder ps' r" by auto
        have p: "p \<noteq> []" "\<forall>c \<in> set p. phChar c"
          using less.prems(1) Cons isPlaceholder_props [of p] by (simp_all add: list_all_iff)
        show ?thesis
        proof (cases g)
          case Nil
          have "replaceAll m (p @ r) = p @ replaceAll m r"
          proof (rule replaceAll_skip)
            fix k assume k: "k < length p"
            then have "hd (drop k (p @ r)) = p ! k" by (simp add: hd_drop_conv_nth nth_append)
            then have "phChar (hd (drop k (p @ r)))" using p(2) k by simp
            moreover have "drop k (p @ r) \<noteq> []" using k by simp
            ultimately show "m (drop k (p @ r)) = None" by (rule nomatch [rotated])
          qed
          moreover have "inOrder ps' (replaceAll m r)"
            using less.hyps [of r ps'] z p(1) r less.prems(1) Cons by simp
          ultimately show ?thesis using z Nil Cons by auto
        next
          case (Cons c' g')
          with z \<open>s = c # cs\<close> have cs: "cs = g' @ p @ r" and c: "c' = c" by simp_all
          then have "inOrder ps cs" using r \<open>ps = p # ps'\<close> by auto
          then have "inOrder ps (replaceAll m cs)"
            using less.hyps [of cs ps] \<open>s = c # cs\<close> less.prems(1) by simp
          then have "inOrder ps ([c] @ replaceAll m cs)" by (rule inOrder_prepend)
          then show ?thesis using None \<open>s = c # cs\<close> by simp
        qed
      qed
    qed
  qed
qed

lemma matchBold_delimited:
  assumes "matchBold s = Some (rep, n)"
  shows "\<exists>d1 x d2 r1 r2 rest. s = d1 @ x @ d2 @ rest \<and> n = length (d1 @ x @ d2) \<and> rep = r1 @ x @ r2
        \<and> d1 \<noteq> [] \<and> d2 \<noteq> [] \<and> (\<forall>c \<in> set d1. \<not> phChar c) \<and> (\<forall>c \<in> set d2. \<not> phChar c)"
proof -
  from assms obtain x where p: "prefix ''**'' s" and x: "lazyUntil notLT ''**'' (drop 2 s) = Some x"
    and r: "rep = ''<strong>'' @ x @ ''</strong>''" and n: "n = length x + 4"
    by (auto simp: matchBold_def split: if_splits option.splits)
  from p obtain t where s: "s = ''**'' @ t" by (auto simp: prefix_def)
  from lazyUntil_decomp [OF x] s have t: "t = x @ ''**'' @ drop (length x + 2) t" by simp
  have a: "s = ''**'' @ x @ ''**'' @ drop (length x + 2) t" using s t by simp
  have b: "n = length (''**'' @ x @ ''**'')" using n by simp
  have c: "''**'' \<noteq> []" "\<forall>c \<in> set ''**''. \<not> phChar c" by simp_all
  show ?thesis using a b r c by blast
qed

lemma matchItalic_delimited:
  assumes "matchItalic s = Some (rep, n)"
  shows "\<exists>d1 x d2 r1 r2 rest. s = d1 @ x @ d2 @ rest \<and> n = length (d1 @ x @ d2) \<and> rep = r1 @ x @ r2
        \<and> d1 \<noteq> [] \<and> d2 \<noteq> [] \<and> (\<forall>c \<in> set d1. \<not> phChar c) \<and> (\<forall>c \<in> set d2. \<not> phChar c)"
proof -
  from assms obtain x where p: "prefix ''*'' s" and x: "lazyUntil notLT ''*'' (drop 1 s) = Some x"
    and r: "rep = ''<em>'' @ x @ ''</em>''" and n: "n = length x + 2"
    by (auto simp: matchItalic_def split: if_splits option.splits)
  from p obtain t where s: "s = ''*'' @ t" by (auto simp: prefix_def)
  from lazyUntil_decomp [OF x] s have t: "t = x @ ''*'' @ drop (length x + 1) t" by simp
  have a: "s = ''*'' @ x @ ''*'' @ drop (length x + 1) t" using s t by simp
  have b: "n = length (''*'' @ x @ ''*'')" using n by simp
  have c: "''*'' \<noteq> []" "\<forall>c \<in> set ''*''. \<not> phChar c" by simp_all
  show ?thesis using a b r c by blast
qed

lemma matchInlineCode_delimited:
  assumes "matchInlineCode s = Some (rep, n)"
  shows "\<exists>d1 x d2 r1 r2 rest. s = d1 @ x @ d2 @ rest \<and> n = length (d1 @ x @ d2) \<and> rep = r1 @ x @ r2
        \<and> d1 \<noteq> [] \<and> d2 \<noteq> [] \<and> (\<forall>c \<in> set d1. \<not> phChar c) \<and> (\<forall>c \<in> set d2. \<not> phChar c)"
proof -
  from assms obtain c cs where s: "s = c # cs" by (cases s) (auto simp: matchInlineCode_def)
  define x where "x = takeWhile (\<lambda>a. a \<noteq> backtick) cs"
  from assms s have c: "c = backtick" and p: "prefix [backtick] (drop (length x) cs)"
    and r: "rep = ''<code>'' @ x @ ''</code>''" and n: "n = length x + 2"
    by (auto simp: matchInlineCode_def Let_def x_def split: if_splits)
  from p obtain rest where d: "drop (length x) cs = backtick # rest" by (auto simp: prefix_def)
  have "take (length x) cs = x"
    unfolding x_def by (metis append_eq_conv_conj takeWhile_dropWhile_id)
  then have "cs = x @ backtick # rest" using d by (metis append_take_drop_id)
  then have a: "s = [backtick] @ x @ [backtick] @ rest" using s c by simp
  have b: "n = length ([backtick] @ x @ [backtick])" using n by simp
  have e: "[backtick] \<noteq> []" "\<forall>c \<in> set [backtick]. \<not> phChar c" by simp_all
  show ?thesis using a b r e by blast
qed

lemma joinParas_Cons: "ps \<noteq> [] \<Longrightarrow> joinParas (p # ps) = p @ LF # LF # joinParas ps"
  by (cases ps) simp_all

lemma joinParas_Cons_Cons: "joinParas ((a # p) # ps) = a # joinParas (p # ps)"
  by (cases ps) simp_all

lemma joinParas_splitParas: "joinParas (splitParas s) = s"
proof (induction s rule: splitParas.induct)
  case 1
  show ?case by simp
next
  case (2 a)
  show ?case by simp
next
  case (3 a b cs)
  show ?case
  proof (cases "a = LF \<and> b = LF")
    case True
    then show ?thesis using 3 by (simp add: joinParas_Cons)
  next
    case False
    define ps where "ps = splitParas (b # cs)"
    have "ps \<noteq> []" unfolding ps_def by simp
    then have "ps = hd ps # tl ps" by simp
    then have "joinParas ((a # hd ps) # tl ps) = a # joinParas ps"
      using joinParas_Cons_Cons [of a "hd ps" "tl ps"] by simp
    moreover have "joinParas ps = b # cs" using 3(2) [OF False] by (simp add: ps_def)
    moreover have "splitParas (a # b # cs) = (a # hd ps) # tl ps"
      using False by (simp add: Let_def ps_def)
    ultimately show ?thesis by simp
  qed
qed

lemma trim_empty: "trim s = [] \<Longrightarrow> \<forall>c \<in> set s. isWhiteSpace c"
proof -
  assume "trim s = []"
  then have "dropWhile isWhiteSpace (rev (dropWhile isWhiteSpace s)) = []" by (simp add: trim_def)
  then have "\<forall>c \<in> set (dropWhile isWhiteSpace s). isWhiteSpace c"
    by (simp add: dropWhile_eq_Nil_conv)
  then have "dropWhile isWhiteSpace s = []"
    by (metis hd_dropWhile hd_in_set)
  then show ?thesis by (simp add: dropWhile_eq_Nil_conv)
qed

lemma underscore_not_white: "\<not> isWhiteSpace (CHR ''_'')"
  by (simp add: isWhiteSpace_def)

lemma inOrder_wrapPara:
  assumes "\<forall>p \<in> set ps. isPlaceholder p" and "inOrder ps q"
  shows "inOrder ps (wrapPara q)"
proof (cases "trim q = []")
  case True
  then have "\<forall>c \<in> set q. isWhiteSpace c" by (rule trim_empty)
  then have "CHR ''_'' \<notin> set q" using underscore_not_white by blast
  then have "ps = []" using inOrder_no_room [OF assms(2,1)] by simp
  then show ?thesis by simp
next
  case False
  have w: "inOrder ps (''<p>'' @ q @ ''</p>'')" using assms(2) by (rule inOrder_wrap)
  show ?thesis
  proof (cases "startsWithTag q \<or> prefix ''__CODE_BLOCK_'' q")
    case True
    then have "wrapPara q = q" by (auto simp: wrapPara_def)
    then show ?thesis using assms(2) by simp
  next
    case False
    then have a: "startsWithTag q = False" and b: "prefix ''__CODE_BLOCK_'' q = False"
      by simp_all
    have c: "(trim q \<noteq> []) = True" using \<open>trim q \<noteq> []\<close> by simp
    have "wrapPara q = ''<p>'' @ q @ ''</p>''"
      unfolding wrapPara_def a b c by (simp only: if_False if_True)
    then show ?thesis using w by simp
  qed
qed

lemma inOrder_paras:
  assumes "\<forall>p \<in> set ps. isPlaceholder p" and "inOrder ps (joinParas qs)" and "qs \<noteq> []"
  shows "inOrder ps (joinLF (map wrapPara qs))"
  using assms
proof (induction qs arbitrary: ps)
  case Nil
  then show ?case by simp
next
  case (Cons q qs)
  show ?case
  proof (cases "qs = []")
    case True
    then show ?thesis using Cons.prems inOrder_wrapPara by simp
  next
    case False
    then have "inOrder ps (q @ [LF, LF] @ joinParas qs)" using Cons.prems(2) by (simp add: joinParas_Cons)
    then obtain ps1 ps2 where p: "ps = ps1 @ ps2" "inOrder ps1 q" "inOrder ps2 (joinParas qs)"
      using inOrder_split [of ps q "[LF, LF]" "joinParas qs"] Cons.prems(1) by auto
    have "inOrder ps1 (wrapPara q)" using inOrder_wrapPara [of ps1 q] p Cons.prems(1) by auto
    moreover have "inOrder ps2 (joinLF (map wrapPara qs))"
      using Cons.IH [of ps2] p False Cons.prems(1) by auto
    ultimately have "inOrder (ps1 @ ps2) (wrapPara q @ [LF] @ joinLF (map wrapPara qs))"
      by (rule inOrder_combine)
    then show ?thesis using False p(1) by (simp add: joinLF_Cons)
  qed
qed

text \<open>All the substitutions between the extraction and the restoration of the code blocks.\<close>

lemma inOrder_stages:
  assumes ps: "\<forall>p \<in> set ps. isPlaceholder p" and t: "inOrder ps t"
  shows "inOrder ps (joinLF (map wrapPara (splitParas
              (mapLines numberLine
              (mapLines bulletLine
              (replaceAll matchInlineCode
              (replaceAll matchItalic
              (replaceAll matchBold
              (mapLines hrLine
              (mapLines h1Line
              (mapLines h2Line
              (mapLines h3Line t))))))))))))"
proof -
  note l = inOrder_mapLines [OF _ ps]
  have 1: "inOrder ps (mapLines h3Line t)" using inOrder_h3Line t by (rule l)
  have 2: "inOrder ps (mapLines h2Line (mapLines h3Line t))" using inOrder_h2Line 1 by (rule l)
  have 3: "inOrder ps (mapLines h1Line (mapLines h2Line (mapLines h3Line t)))"
    using inOrder_h1Line 2 by (rule l)
  have 4: "inOrder ps (mapLines hrLine (mapLines h1Line (mapLines h2Line (mapLines h3Line t))))"
    using inOrder_hrLine 3 by (rule l)
  have 5: "inOrder ps (replaceAll matchBold
      (mapLines hrLine (mapLines h1Line (mapLines h2Line (mapLines h3Line t)))))"
    using matchBold_delimited ps 4 by (rule inOrder_replaceAll)
  have 6: "inOrder ps (replaceAll matchItalic (replaceAll matchBold
      (mapLines hrLine (mapLines h1Line (mapLines h2Line (mapLines h3Line t))))))"
    using matchItalic_delimited ps 5 by (rule inOrder_replaceAll)
  have 7: "inOrder ps (replaceAll matchInlineCode (replaceAll matchItalic (replaceAll matchBold
      (mapLines hrLine (mapLines h1Line (mapLines h2Line (mapLines h3Line t)))))))"
    using matchInlineCode_delimited ps 6 by (rule inOrder_replaceAll)
  have 8: "inOrder ps (mapLines bulletLine (replaceAll matchInlineCode (replaceAll matchItalic
      (replaceAll matchBold (mapLines hrLine (mapLines h1Line (mapLines h2Line (mapLines h3Line t))))))))"
    using inOrder_bulletLine 7 by (rule l)
  have 9: "inOrder ps (mapLines numberLine (mapLines bulletLine (replaceAll matchInlineCode
      (replaceAll matchItalic (replaceAll matchBold (mapLines hrLine (mapLines h1Line
      (mapLines h2Line (mapLines h3Line t)))))))))"
    using inOrder_numberLine 8 by (rule l)
  show ?thesis
    using ps by (rule inOrder_paras) (simp_all add: joinParas_splitParas 9)
qed

lemma extract_fenceCaptures:
  "snd (extractCodeBlocks i s) = map codeBlock (fenceCaptures s)"
  by (induction i s rule: extractCodeBlocks.induct) (auto split: option.splits prod.splits)

lemma placeholders_isPlaceholder: "\<forall>p \<in> set (map placeholder ks). isPlaceholder p"
  by (auto simp: isPlaceholder_def)

lemma extract_inOrder:
  "inOrder (map placeholder [i ..< i + length (snd (extractCodeBlocks i s))]) (fst (extractCodeBlocks i s))"
proof (induction i s rule: extractCodeBlocks.induct)
  case (1 i)
  show ?case by simp
next
  case (2 i c cs)
  show ?case
  proof (cases "matchFence (c # cs)")
    case None
    then have "inOrder (map placeholder [i ..< i + length (snd (extractCodeBlocks i cs))])
        (fst (extractCodeBlocks i cs))" using 2 by simp
    then have "inOrder (map placeholder [i ..< i + length (snd (extractCodeBlocks i cs))])
        ([c] @ fst (extractCodeBlocks i cs))" by (rule inOrder_prepend)
    then show ?thesis using None by (simp add: split_beta)
  next
    case (Some code)
    let ?r = "extractCodeBlocks (Suc i) (drop (length code + 6) (c # cs))"
    have ih: "inOrder (map placeholder [Suc i ..< Suc i + length (snd ?r)]) (fst ?r)"
      using 2(2) [OF Some] .
    have "[i ..< i + Suc (length (snd ?r))] = i # [Suc i ..< Suc i + length (snd ?r)]"
      by (subst upt_rec) simp
    moreover have "inOrder (placeholder i # map placeholder [Suc i ..< Suc i + length (snd ?r)])
        ([] @ placeholder i @ fst ?r)"
      using ih unfolding inOrder.simps by blast
    ultimately show ?thesis using Some by (simp add: split_beta)
  qed
qed

subsection \<open>Restoring a block\<close>

lemma lazyUntil_min:
  "lazyUntil ok d s = Some x \<Longrightarrow> s = g @ d @ r \<Longrightarrow> length x \<le> length g"
proof (induction s arbitrary: x g)
  case Nil
  then show ?case by (simp split: if_splits)
next
  case (Cons c cs)
  show ?case
  proof (cases "prefix d (c # cs)")
    case True
    then have "x = []" using Cons.prems(1) by simp
    then show ?thesis by simp
  next
    case False
    with Cons.prems(1) obtain y where y: "lazyUntil ok d cs = Some y" "x = c # y"
      by (auto split: if_splits)
    have "g \<noteq> []" using False Cons.prems(2) by auto
    then obtain g' where g: "g = c # g'" "cs = g' @ d @ r" using Cons.prems(2) by (cases g) auto
    from Cons.IH [OF y(1) g(2)] show ?thesis using y(2) g(1) by simp
  qed
qed

lemma lazyUntil_found: "lazyUntil (\<lambda>c. True) d (g @ d @ r) \<noteq> None"
proof (induction g)
  case Nil
  show ?case
  proof (cases "d @ r")
    case Nil
    then show ?thesis by simp
  next
    case (Cons a l)
    have "prefix d (d @ r)" by simp
    then have "prefix d (a # l)" using Cons by simp
    then show ?thesis using Cons by simp
  qed
next
  case (Cons c g)
  then show ?case by auto
qed

text \<open>What \<open>replaceFirst\<close> does when the pattern stands in the string.\<close>

lemma replaceFirst_found:
  assumes "z = g @ p @ r"
  obtains front where "length front \<le> length g" and "z = front @ p @ drop (length front + length p) z"
    and "replaceFirst p b z
         = front @ getSubstitution p front (drop (length front + length p) z) b
             @ drop (length front + length p) z"
proof -
  from lazyUntil_found [of p g r] assms obtain front where
    f: "lazyUntil (\<lambda>c. True) p z = Some front" by auto
  have "length front \<le> length g" using f assms by (rule lazyUntil_min)
  moreover have "z = front @ p @ drop (length front + length p) z" using f by (rule lazyUntil_decomp)
  moreover have "replaceFirst p b z
         = front @ getSubstitution p front (drop (length front + length p) z) b
             @ drop (length front + length p) z"
    using f by (simp add: replaceFirst_def Let_def)
  ultimately show ?thesis by (rule that)
qed

lemma replaceFirst_cases:
  "replaceFirst p b z = z \<or>
   (\<exists>front back x. z = front @ p @ back \<and> replaceFirst p b z = front @ x @ back)"
proof (cases "lazyUntil (\<lambda>c. True) p z")
  case None
  then show ?thesis by (simp add: replaceFirst_def)
next
  case (Some front)
  from lazyUntil_decomp [OF Some] have "z = front @ p @ drop (length front + length p) z" .
  moreover have "replaceFirst p b z
         = front @ getSubstitution p front (drop (length front + length p) z) b
             @ drop (length front + length p) z"
    using Some by (simp add: replaceFirst_def Let_def)
  ultimately show ?thesis by blast
qed

text \<open>Escaping and trimming.\<close>

lemma set_escapeChar: "set (escapeChar c) \<subseteq> insert c (set ''&amp;lt;gt;quot;#039;'')"
  by (auto simp: escapeChar_def)

lemma escapeHtml_Cons: "escapeHtml (c # s) = escapeChar c @ escapeHtml s"
  by (simp add: escapeHtml_def)

lemma escapeHtml_no_angle: "CHR ''<'' \<notin> set (escapeHtml s) \<and> CHR ''>'' \<notin> set (escapeHtml s)"
  by (induction s) (auto simp: escapeHtml_def escapeChar_def)

lemma escapeHtml_no_dollar: "CHR ''$'' \<notin> set s \<Longrightarrow> CHR ''$'' \<notin> set (escapeHtml s)"
  by (induction s) (auto simp: escapeHtml_def escapeChar_def)

lemma sublist_trim: "sublist (trim s) s"
proof -
  have "sublist (rev (trim s)) (rev (dropWhile isWhiteSpace s))"
    by (simp add: trim_def)
  then have "sublist (trim s) (dropWhile isWhiteSpace s)" by (simp only: sublist_rev)
  then show ?thesis using sublist_dropWhile sublist_order.order_trans by blast
qed

lemma set_trim: "set (trim s) \<subseteq> set s"
  using sublist_trim [of s] by (rule set_mono_sublist)

lemma codeBlock_no_dollar: "CHR ''$'' \<notin> set code \<Longrightarrow> CHR ''$'' \<notin> set (codeBlock code)"
  using escapeHtml_no_dollar [of "trim code"] set_trim [of code] by (auto simp: codeBlock_def)

lemma escapeChar_stable: "stable [c] \<Longrightarrow> escapeChar c = [c]"
  by (simp add: stable_def escapeChar_def)

lemma escapeChar_cases:
  "escapeChar c = [c] \<or> (escapeChar c \<noteq> [] \<and> set (escapeChar c) \<subseteq> set ''&amp;lt;gt;quot;#039;'')"
  by (simp add: escapeChar_def)

lemma prefix_escapeHtml:
  "stable k \<Longrightarrow> prefix k (escapeHtml s) \<Longrightarrow> prefix k s"
proof (induction k arbitrary: s)
  case Nil
  then show ?case by simp
next
  case (Cons a k)
  have a: "a \<notin> set ''&amp;lt;gt;quot;#039;''" and k: "stable k"
    using Cons.prems(1) by (auto simp: stable_def)
  show ?case
  proof (cases s)
    case Nil
    then show ?thesis using Cons.prems(2) by (simp add: escapeHtml_def)
  next
    case (Cons c s')
    from escapeChar_cases [of c] show ?thesis
    proof
      assume "escapeChar c = [c]"
      then have "a = c" "prefix k (escapeHtml s')"
        using Cons.prems(2) Cons by (simp_all add: escapeHtml_Cons)
      then show ?thesis using Cons.IH [OF k] Cons by simp
    next
      assume e: "escapeChar c \<noteq> [] \<and> set (escapeChar c) \<subseteq> set ''&amp;lt;gt;quot;#039;''"
      then obtain e1 es where es: "escapeChar c = e1 # es" by (cases "escapeChar c") auto
      then have "a = e1" using Cons.prems(2) Cons by (simp add: escapeHtml_Cons)
      moreover have "e1 \<in> set ''&amp;lt;gt;quot;#039;''" using e es by auto
      ultimately show ?thesis using a by simp
    qed
  qed
qed

lemma sublist_skip_foreign:
  assumes "sublist k (x @ y)" and "k \<noteq> []" and "hd k \<notin> set x"
  shows "sublist k y"
  using assms(1,3)
proof (induction x)
  case Nil
  then show ?case by simp
next
  case (Cons a x)
  from Cons.prems(1) have "prefix k (a # x @ y) \<or> sublist k (x @ y)"
    by (simp add: sublist_Cons_right)
  then show ?case
  proof
    assume "prefix k (a # x @ y)"
    then have "hd k = a" using assms(2) by (cases k) auto
    then show ?thesis using Cons.prems(2) by simp
  next
    assume "sublist k (x @ y)"
    then show ?thesis using Cons by simp
  qed
qed

lemma sublist_escapeHtml:
  assumes "stable k" and "k \<noteq> []"
  shows "sublist k (escapeHtml s) \<Longrightarrow> sublist k s"
proof (induction s)
  case Nil
  then show ?case by (simp add: escapeHtml_def)
next
  case (Cons c s)
  have hd: "hd k \<notin> set ''&amp;lt;gt;quot;#039;''"
    using assms by (cases k) (auto simp: stable_def)
  from escapeChar_cases [of c] show ?case
  proof
    assume e: "escapeChar c = [c]"
    then have "prefix k (c # escapeHtml s) \<or> sublist k (escapeHtml s)"
      using Cons.prems by (simp add: escapeHtml_Cons sublist_Cons_right)
    then show ?thesis
    proof
      assume "prefix k (c # escapeHtml s)"
      then have "prefix k (escapeHtml (c # s))" using e by (simp add: escapeHtml_Cons)
      then have "prefix k (c # s)" using assms(1) by (rule prefix_escapeHtml [rotated])
      then show ?thesis by (auto simp: prefix_def)
    next
      assume "sublist k (escapeHtml s)"
      then show ?thesis using Cons.IH by (simp add: sublist_Cons_right)
    qed
  next
    assume e: "escapeChar c \<noteq> [] \<and> set (escapeChar c) \<subseteq> set ''&amp;lt;gt;quot;#039;''"
    then have "hd k \<notin> set (escapeChar c)" using hd by blast
    then have "sublist k (escapeHtml s)"
      using Cons.prems assms(2) sublist_skip_foreign [of k "escapeChar c" "escapeHtml s"]
      by (simp add: escapeHtml_Cons)
    then show ?thesis using Cons.IH by (simp add: sublist_Cons_right)
  qed
qed

lemma stable_stem: "stable ''__CODE_BLOCK_''"
  unfolding stable_def by simp

lemma stem_in_placeholder: "sublist ''__CODE_BLOCK_'' (placeholder i)"
  unfolding placeholder_def by (rule sublist_append_rightI)

lemma placeholder_not_in_code:
  assumes "\<not> sublist ''__CODE_BLOCK_'' code"
  shows "\<not> sublist (placeholder i) (escapeHtml (trim code))"
proof
  assume a: "sublist (placeholder i) (escapeHtml (trim code))"
  have "sublist ''__CODE_BLOCK_'' (escapeHtml (trim code))"
    using stem_in_placeholder a by (rule sublist_order.order_trans)
  then have "sublist ''__CODE_BLOCK_'' (trim code)"
    using sublist_escapeHtml [OF stable_stem] by blast
  then have "sublist ''__CODE_BLOCK_'' code"
    using sublist_trim by (rule sublist_order.order_trans)
  with assms show False by simp
qed

lemma getSubstitution_no_pattern:
  "\<not> dollarPattern t \<Longrightarrow> getSubstitution m f b t = t"
  by (induction m f b t rule: getSubstitution.induct) auto

lemma dollarPattern_dollar: "dollarPattern t \<Longrightarrow> CHR ''$'' \<in> set t"
  by (induction t rule: dollarPattern.induct) auto

lemma inOrder_replaceFirst:
  assumes "inOrder (p # ps) z"
  shows "inOrder ps (replaceFirst p b z)"
proof -
  from assms obtain g r where z: "z = g @ p @ r" and r: "inOrder ps r" by auto
  from z obtain front where f: "length front \<le> length g"
    and out: "replaceFirst p b z
         = front @ getSubstitution p front (drop (length front + length p) z) b
             @ drop (length front + length p) z"
    by (rule replaceFirst_found)
  have "drop (length front + length p) ((g @ p) @ r) = drop (length front + length p) (g @ p) @ r"
    using f by simp
  then have d: "drop (length front + length p) z = drop (length front + length p) (g @ p) @ r"
    using z by simp
  define w where "w = front @ getSubstitution p front (drop (length front + length p) z) b
          @ drop (length front + length p) (g @ p)"
  have "replaceFirst p b z = w @ r"
    unfolding w_def using out d by simp
  then show ?thesis using inOrder_prepend [OF r, of w] by simp
qed

text \<open>The characters around the escaped code of a block.\<close>

lemma sublist_inside:
  assumes "sublist k (x @ e @ y)" and "k \<noteq> []" and "\<forall>c \<in> set k. phChar c"
    and "\<forall>c \<in> set x. \<not> phChar c" and "\<forall>c \<in> set y. \<not> phChar c"
  shows "sublist k e"
proof -
  have "hd k \<in> set k" "last k \<in> set k" using assms(2) by simp_all
  then have h: "hd k \<notin> set x" and l: "last k \<notin> set y" using assms(3,4,5) by blast+
  have "sublist k (e @ y)" using assms(1,2) h by (rule sublist_skip_foreign)
  then have "sublist (rev k) (rev y @ rev e)" by (simp only: sublist_rev flip: rev_append)
  moreover have "hd (rev k) \<notin> set (rev y)" using l assms(2) by (simp add: hd_rev)
  ultimately have "sublist (rev k) (rev e)"
    using assms(2) sublist_skip_foreign [of "rev k" "rev y" "rev e"] by simp
  then show ?thesis by (simp only: sublist_rev)
qed

lemma codeBlock_ends:
  "codeBlock code \<noteq> []" "hd (codeBlock code) = CHR ''<''" "last (codeBlock code) = CHR ''>''"
  by (simp_all add: codeBlock_def)

lemma placeholder_in_block:
  assumes "sublist k (codeBlock code)" and "k \<noteq> []" and "\<forall>c \<in> set k. phChar c"
  shows "sublist k (escapeHtml (trim code))"
proof -
  have "\<forall>c \<in> set ''<pre><code>''. \<not> phChar c" "\<forall>c \<in> set ''</code></pre>''. \<not> phChar c"
    by (simp_all add: phChar_def isDigit_def)
  then show ?thesis using assms sublist_inside [of k "''<pre><code>''" _ "''</code></pre>''"]
    unfolding codeBlock_def by blast
qed

text \<open>A block that stands beside an occurrence of a placeholder does not overlap it.\<close>

lemma block_beside:
  assumes eq: "front @ p @ back = a @ b @ c"
    and b: "b \<noteq> []" "\<not> phChar (hd b)" "\<not> phChar (last b)"
    and p: "p \<noteq> []" "\<forall>c \<in> set p. phChar c" "\<not> sublist p b"
  shows "sublist b front \<or> sublist b back"
proof -
  let ?f = "length front" and ?p = "length p" and ?a = "length a" and ?b = "length b"
  consider (left) "?a + ?b \<le> ?f" | (right) "?f + ?p \<le> ?a"
    | (start) "?f \<le> ?a" "?a < ?f + ?p"
    | (finish) "?a < ?f" "?f < ?a + ?b" "?a + ?b \<le> ?f + ?p"
    | (inside) "?a < ?f" "?f + ?p < ?a + ?b"
    by linarith
  then show ?thesis
  proof cases
    case left
    have "take ?f (front @ p @ back) = take ?f ((a @ b) @ c)" using eq by simp
    then have "front = a @ b @ take (?f - (?a + ?b)) c" using left by simp
    then have "sublist b front" by (metis sublist_appendI)
    then show ?thesis ..
  next
    case right
    have "drop (?f + ?p) ((front @ p) @ back) = drop (?f + ?p) (a @ b @ c)" using eq by simp
    then have "back = drop (?f + ?p) a @ b @ c" using right by simp
    then have "sublist b back" by (metis sublist_appendI)
    then show ?thesis ..
  next
    case start
    have i: "?a - ?f < ?p" using start by linarith
    have "(front @ p @ back) ! ?a = (p @ back) ! (?a - ?f)" using start by (simp add: nth_append)
    then have "(front @ p @ back) ! ?a = p ! (?a - ?f)" using i by (simp add: nth_append)
    moreover have "(a @ b @ c) ! ?a = hd b" using b(1) by (simp add: nth_append hd_conv_nth)
    ultimately have "hd b = p ! (?a - ?f)" using eq by simp
    then have "hd b \<in> set p" using i by simp
    then show ?thesis using p(2) b(2) by blast
  next
    case finish
    let ?i = "?a + ?b - 1"
    have i: "?i - ?f < ?p" "?f \<le> ?i" "?a \<le> ?i" "?i - ?a < ?b" "?i - ?a = ?b - 1"
      using finish by linarith+
    have "(front @ p @ back) ! ?i = (p @ back) ! (?i - ?f)" using i by (simp add: nth_append)
    then have "(front @ p @ back) ! ?i = p ! (?i - ?f)" using i by (simp add: nth_append)
    moreover have "(a @ b @ c) ! ?i = (b @ c) ! (?i - ?a)" using i by (simp add: nth_append)
    then have "(a @ b @ c) ! ?i = b ! (?b - 1)" using i by (simp add: nth_append)
    then have "(a @ b @ c) ! ?i = last b" using b(1) by (simp add: last_conv_nth)
    ultimately have "last b = p ! (?i - ?f)" using eq by simp
    then have "last b \<in> set p" using i(1) by simp
    then show ?thesis using p(2) b(3) by blast
  next
    case inside
    have "take ?p (drop ?f (front @ p @ back)) = p" by simp
    then have "p = take ?p (drop ?f (a @ b @ c))" using eq by simp
    also have "drop ?f (a @ b @ c) = drop (?f - ?a) (b @ c)" using inside by simp
    also have "drop (?f - ?a) (b @ c) = drop (?f - ?a) b @ c" using inside by simp
    also have "take ?p (drop (?f - ?a) b @ c) = take ?p (drop (?f - ?a) b)" using inside by simp
    finally have "p = take ?p (drop (?f - ?a) b)" .
    then have "sublist p b"
      by (metis sublist_drop sublist_order.order_trans sublist_take)
    then show ?thesis using p(3) by simp
  qed
qed

lemma block_survives_replaceFirst:
  assumes "sublist (codeBlock code) z" and "p \<noteq> []" and "\<forall>c \<in> set p. phChar c"
    and "\<not> sublist p (escapeHtml (trim code))"
  shows "sublist (codeBlock code) (replaceFirst p b' z)"
proof -
  from replaceFirst_cases [of p b' z] show ?thesis
  proof
    assume "replaceFirst p b' z = z"
    then show ?thesis using assms(1) by simp
  next
    assume "\<exists>front back x. z = front @ p @ back \<and> replaceFirst p b' z = front @ x @ back"
    then obtain front rear x where z: "z = front @ p @ rear"
      and out: "replaceFirst p b' z = front @ x @ rear" by blast
    from assms(1) obtain a c where "z = a @ codeBlock code @ c" by (auto simp: sublist_def)
    then have eq: "front @ p @ rear = a @ codeBlock code @ c" using z by simp
    have np: "\<not> sublist p (codeBlock code)"
      using placeholder_in_block [of p code] assms(2,3,4) by blast
    have "sublist (codeBlock code) front \<or> sublist (codeBlock code) rear"
      using eq codeBlock_ends(1) _ _ assms(2,3) np
      by (rule block_beside) (simp_all add: codeBlock_ends)
    then show ?thesis unfolding out
      by (metis sublist_append)
  qed
qed

lemma block_survives_restore:
  assumes "\<forall>i. \<not> sublist (placeholder i) (escapeHtml (trim code))"
  shows "sublist (codeBlock code) z \<Longrightarrow> sublist (codeBlock code) (restoreCodeBlocks j bs z)"
proof (induction bs arbitrary: j z)
  case Nil
  then show ?case by simp
next
  case (Cons b bs)
  have "sublist (codeBlock code) (replaceFirst (placeholder j) b z)"
    using Cons.prems placeholder_nonempty _ assms [rule_format, of j]
    by (rule block_survives_replaceFirst) (use placeholder_chars [of j] in \<open>simp add: list_all_iff\<close>)
  then show ?case using Cons.IH by simp
qed

lemma block_replaceFirst:
  assumes "inOrder (p # ps) z" and "\<not> dollarPattern b"
  shows "sublist b (replaceFirst p b z)"
proof -
  from assms(1) obtain g r where z: "z = g @ p @ r" by auto
  from z obtain front where
    "replaceFirst p b z
         = front @ getSubstitution p front (drop (length front + length p) z) b
             @ drop (length front + length p) z"
    by (rule replaceFirst_found)
  then have "replaceFirst p b z = front @ b @ drop (length front + length p) z"
    using assms(2) by (simp add: getSubstitution_no_pattern)
  then show ?thesis by simp
qed

lemma block_restored:
  assumes "\<forall>i. \<not> sublist (placeholder i) (escapeHtml (trim code))"
    and "\<not> dollarPattern (codeBlock code)"
  shows "inOrder (map placeholder [j ..< j + length bs]) z \<Longrightarrow> codeBlock code \<in> set bs \<Longrightarrow>
         sublist (codeBlock code) (restoreCodeBlocks j bs z)"
proof (induction bs arbitrary: j z)
  case Nil
  then show ?case by simp
next
  case (Cons b bs)
  have u: "[j ..< j + length (b # bs)] = j # [Suc j ..< Suc j + length bs]"
    by (subst upt_rec) simp
  then have o: "inOrder (placeholder j # map placeholder [Suc j ..< Suc j + length bs]) z"
    using Cons.prems(1) by simp
  then have next_ok: "inOrder (map placeholder [Suc j ..< Suc j + length bs]) (replaceFirst (placeholder j) b z)"
    by (rule inOrder_replaceFirst)
  show ?case
  proof (cases "b = codeBlock code")
    case True
    have "\<not> dollarPattern b" using True assms(2) by simp
    with o have "sublist b (replaceFirst (placeholder j) b z)" by (rule block_replaceFirst)
    then have "sublist (codeBlock code) (restoreCodeBlocks (Suc j) bs (replaceFirst (placeholder j) b z))"
      using True block_survives_restore [OF assms(1)] by simp
    then show ?thesis by simp
  next
    case False
    then have "codeBlock code \<in> set bs" using Cons.prems(2) by simp
    from Cons.IH [OF next_ok this] show ?thesis by simp
  qed
qed

subsection \<open>The list replacement keeps a block\<close>

lemma greedyUntil_prefix: "greedyUntil d s = Some k \<Longrightarrow> prefix d (drop k s)"
proof (induction s arbitrary: k)
  case Nil
  then show ?case by (simp split: if_splits)
next
  case (Cons c s)
  show ?case
  proof (cases "greedyUntil d s")
    case None
    then show ?thesis using Cons.prems by (simp split: if_splits)
  next
    case (Some j)
    then have "k = Suc j" using Cons.prems by simp
    then show ?thesis using Cons.IH [OF Some] by simp
  qed
qed

lemma matchItem_suffix:
  assumes "matchItem z = Some n"
  shows "0 < n \<and> n \<le> length z
         \<and> (suffix ''</li>'' (take n z) \<or> suffix (''</li>'' @ [LF]) (take n z))"
proof -
  from assms obtain k where p: "prefix ''<li>'' z"
    and g: "greedyUntil ''</li>'' (takeWhile notLT (drop 4 z)) = Some k"
    and n: "n = k + 9 + (if prefix [LF] (drop (k + 9) z) then 1 else 0)"
    by (auto simp: matchItem_def split: if_splits option.splits)
  define line where "line = takeWhile notLT (drop 4 z)"
  from greedyUntil_prefix [OF g] obtain r where r: "drop k line = ''</li>'' @ r"
    by (auto simp: prefix_def line_def)
  have kl: "k \<le> length line" using r by (cases "k \<le> length line") auto
  have line: "line = take k line @ ''</li>'' @ r" using r by (metis append_take_drop_id)
  from p obtain t where z: "z = ''<li>'' @ t" by (auto simp: prefix_def)
  have "t = line @ dropWhile notLT t" using z by (simp add: line_def)
  then have t: "t = take k line @ ''</li>'' @ r @ dropWhile notLT t" using line by (metis append.assoc)
  define body where "body = ''<li>'' @ take k line @ ''</li>''"
  define more where "more = r @ dropWhile notLT t"
  have zb: "z = body @ more" using z t by (simp add: body_def more_def)
  have lb: "length body = k + 9" using kl by (simp add: body_def)
  have d: "drop (k + 9) z = more" using zb lb by simp
  have sb: "suffix ''</li>'' body" unfolding body_def by (simp add: suffix_def)
  show ?thesis
  proof (cases "prefix [LF] more")
    case True
    then obtain more' where m: "more = LF # more'" by (auto simp: prefix_def)
    have n': "n = k + 10" using n d True by simp
    have "take n z = body @ [LF]" using zb lb n' m by simp
    moreover have "suffix (''</li>'' @ [LF]) (body @ [LF])" using sb by (simp add: suffix_def)
    moreover have "n \<le> length z" using zb lb n' m by simp
    ultimately show ?thesis using n' by simp
  next
    case False
    have n': "n = k + 9" using n d False by simp
    have "take n z = body" using zb lb n' by simp
    moreover have "n \<le> length z" using zb lb n' by simp
    ultimately show ?thesis using sb n' by simp
  qed
qed

lemma matchItems_suffix:
  "0 < matchItems z \<Longrightarrow>
     matchItems z \<le> length z
     \<and> (suffix ''</li>'' (take (matchItems z) z) \<or> suffix (''</li>'' @ [LF]) (take (matchItems z) z))"
proof (induction z rule: matchItems.induct)
  case (1 s)
  show ?case
  proof (cases "matchItem s")
    case None
    then have "matchItems s = 0" by (rule matchItems_None)
    then show ?thesis using "1.prems" by simp
  next
    case (Some n)
    from matchItem_suffix [OF Some] have n: "0 < n" "n \<le> length s"
      and sn: "suffix ''</li>'' (take n s) \<or> suffix (''</li>'' @ [LF]) (take n s)" by simp_all
    have m: "matchItems s = n + matchItems (drop n s)" using Some by (rule matchItems_Some)
    show ?thesis
    proof (cases "matchItems (drop n s) = 0")
      case True
      then show ?thesis using m n sn by simp
    next
      case False
      then have ih: "matchItems (drop n s) \<le> length (drop n s)
          \<and> (suffix ''</li>'' (take (matchItems (drop n s)) (drop n s))
             \<or> suffix (''</li>'' @ [LF]) (take (matchItems (drop n s)) (drop n s)))"
        using "1.IH" [OF Some] by simp
      have "take (n + matchItems (drop n s)) s = take n s @ take (matchItems (drop n s)) (drop n s)"
        by (simp add: take_add)
      then have "suffix ''</li>'' (take (matchItems s) s) \<or> suffix (''</li>'' @ [LF]) (take (matchItems s) s)"
        using ih m by (metis suffix_appendI)
      moreover have "matchItems (drop n s) \<le> length s - n" using ih by simp
      then have "matchItems s \<le> length s" using m n by linarith
      ultimately show ?thesis by simp
    qed
  qed
qed

lemma suffix_nth:
  assumes "suffix s t" and "i < length s"
  shows "t ! (length t - length s + i) = s ! i"
proof -
  from assms(1) obtain u where "t = u @ s" by (auto simp: suffix_def)
  then show ?thesis using assms(2) by (simp add: nth_append)
qed

lemma sublist_pair:
  assumes "Suc j < length b"
  shows "sublist [b ! j, b ! Suc j] b"
proof -
  have "b = take j b @ b ! j # drop (Suc j) b" using assms by (simp add: id_take_nth_drop)
  moreover have "drop (Suc j) b = b ! Suc j # drop (Suc (Suc j)) b"
    using assms by (simp add: Cons_nth_drop_Suc)
  ultimately have "b = take j b @ [b ! j, b ! Suc j] @ drop (Suc (Suc j)) b" by simp
  then show ?thesis by (metis sublist_appendI)
qed

lemma sublist_pair_append:
  "sublist [x, y] (u @ v) \<longleftrightarrow>
     sublist [x, y] u \<or> sublist [x, y] v \<or> (u \<noteq> [] \<and> v \<noteq> [] \<and> last u = x \<and> hd v = y)"
proof
  assume "sublist [x, y] (u @ v)"
  then consider "sublist [x, y] u" | "sublist [x, y] v"
    | xs1 xs2 where "[x, y] = xs1 @ xs2" "suffix xs1 u" "prefix xs2 v"
    by (auto simp: sublist_append)
  then show "sublist [x, y] u \<or> sublist [x, y] v \<or> (u \<noteq> [] \<and> v \<noteq> [] \<and> last u = x \<and> hd v = y)"
  proof cases
    case 1
    then show ?thesis by simp
  next
    case 2
    then show ?thesis by simp
  next
    case 3
    have "(xs1 = [] \<and> xs2 = [x, y]) \<or> (xs1 = [x] \<and> xs2 = [y]) \<or> (xs1 = [x, y] \<and> xs2 = [])"
    proof (cases xs1)
      case Nil
      then show ?thesis using 3(1) by simp
    next
      case c1: (Cons a as)
      show ?thesis
      proof (cases as)
        case Nil
        then show ?thesis using 3(1) c1 by simp
      next
        case (Cons a' as')
        then show ?thesis using 3(1) c1 by simp
      qed
    qed
    then consider "xs1 = []" "xs2 = [x, y]" | "xs1 = [x]" "xs2 = [y]" | "xs1 = [x, y]" "xs2 = []"
      by blast
    then show ?thesis
    proof cases
      case 1
      then have "sublist [x, y] v" using 3(3) by (simp add: prefix_imp_sublist)
      then show ?thesis by simp
    next
      case 2
      then have "u \<noteq> [] \<and> v \<noteq> [] \<and> last u = x \<and> hd v = y"
        using 3(2,3) by (auto simp: suffix_def prefix_def)
      then show ?thesis by simp
    next
      case 3
      then have "sublist [x, y] u" using \<open>suffix xs1 u\<close> by (simp add: suffix_imp_sublist)
      then show ?thesis by simp
    qed
  qed
next
  assume a: "sublist [x, y] u \<or> sublist [x, y] v \<or> (u \<noteq> [] \<and> v \<noteq> [] \<and> last u = x \<and> hd v = y)"
  then consider "sublist [x, y] u" | "sublist [x, y] v" | "u \<noteq> []" "v \<noteq> []" "last u = x" "hd v = y"
    by blast
  then show "sublist [x, y] (u @ v)"
  proof cases
    case 1
    then show ?thesis by (simp add: sublist_append)
  next
    case 2
    then show ?thesis by (simp add: sublist_append)
  next
    case 3
    have "u = butlast u @ [x]" using 3(1,3) by (metis append_butlast_last_id)
    moreover have "v = y # tl v" using 3(2,4) by (metis list.collapse)
    ultimately have "u @ v = butlast u @ [x, y] @ tl v" by (metis append.assoc append_Cons append_Nil)
    then show ?thesis by (metis sublist_appendI)
  qed
qed

lemma sublist_pair_set: "sublist [x, y] e \<Longrightarrow> x \<in> set e \<and> y \<in> set e"
  using set_mono_sublist [of "[x, y]" e] by simp

lemma codeBlock_tight: "tight (codeBlock code)"
proof -
  let ?e = "escapeHtml (trim code)"
  have e: "CHR ''<'' \<notin> set ?e" "CHR ''>'' \<notin> set ?e" using escapeHtml_no_angle by simp_all
  have x: "\<not> sublist ''<l'' ''<pre><code>''" "\<not> sublist ''i>'' ''<pre><code>''"
    "\<not> sublist ''<l'' ''</code></pre>''" "\<not> sublist ''i>'' ''</code></pre>''"
    by (simp_all add: sublist_Cons_right)
  have le: "?e \<noteq> [] \<Longrightarrow> last ?e \<noteq> CHR ''<''" using e(1) last_in_set by metis
  have 1: "\<not> sublist ''<l'' (?e @ ''</code></pre>'')"
    using e(1) x(3) le sublist_pair_set [of "CHR ''<''" "CHR ''l''" ?e]
    by (auto simp: sublist_pair_append)
  have 2: "\<not> sublist ''i>'' (?e @ ''</code></pre>'')"
    using e(2) x(4) sublist_pair_set [of "CHR ''i''" "CHR ''>''" ?e]
    by (auto simp: sublist_pair_append)
  have 3: "\<not> sublist ''<l'' (''<pre><code>'' @ ?e @ ''</code></pre>'')"
    using 1 x(1) by (subst sublist_pair_append) simp
  have 4: "\<not> sublist ''i>'' (''<pre><code>'' @ ?e @ ''</code></pre>'')"
    using 2 x(2) by (subst sublist_pair_append) simp
  show ?thesis
    unfolding tight_def using 3 4 codeBlock_ends by (simp add: codeBlock_def)
qed

lemma suffix_fits:
  assumes "suffix s (a @ b)" and "length s \<le> length b"
  shows "suffix s b"
proof -
  from assms(1) consider "suffix s b" | s' where "s = s' @ b" by (auto simp: suffix_append)
  then show ?thesis
  proof cases
    case 1
    then show ?thesis .
  next
    case 2
    then have "s' = []" using assms(2) by simp
    then show ?thesis using 2 by simp
  qed
qed

lemma suffix_fits_eq:
  assumes "suffix s (a @ b)" and "length s = length b"
  shows "b = s"
proof -
  have "suffix s b" using assms by (intro suffix_fits [of s a b]) simp_all
  then obtain u where u: "b = u @ s" by (auto simp: suffix_def)
  then have "u = []" using assms(2) by simp
  then show ?thesis using u by simp
qed

lemma tight_no_split:
  assumes "tight b" and "b = b1 @ b2" and "b1 \<noteq> []"
    and "suffix ''</li>'' (a @ b1) \<or> suffix (''</li>'' @ [LF]) (a @ b1)"
  shows False
proof -
  have "hd b = CHR ''<''" using assms(1) by (simp add: tight_def)
  then have hd: "hd b1 = CHR ''<''" using assms(2,3) by simp
  have "\<not> sublist ''i>'' b" using assms(1) by (simp add: tight_def)
  then have ni: "\<not> sublist ''i>'' b1" unfolding assms(2) by (simp add: sublist_append)
  from assms(4) show False
  proof
    assume "suffix ''</li>'' (a @ b1)"
    then obtain u where u: "a @ b1 = u @ ''</li>''" unfolding suffix_def by blast
    have "a @ b1 = (u @ ''</l'') @ ''i>''" unfolding u by simp
    then have s2: "suffix ''i>'' (a @ b1)" unfolding suffix_def by blast
    have "a @ b1 = (u @ ''</li'') @ ''>''" unfolding u by simp
    then have s1: "suffix ''>'' (a @ b1)" unfolding suffix_def by blast
    show False
    proof (cases "2 \<le> length b1")
      case True
      have "suffix ''i>'' b1" using s2 by (rule suffix_fits) (use True in simp)
      then have "sublist ''i>'' b1" by (rule suffix_imp_sublist)
      then show False using ni by simp
    next
      case False
      moreover have "0 < length b1" using assms(3) by simp
      ultimately have "length b1 = 1" by linarith
      then have "b1 = ''>''" using s1 by (intro suffix_fits_eq [of _ a]) simp_all
      then show False using hd by simp
    qed
  next
    assume "suffix (''</li>'' @ [LF]) (a @ b1)"
    then obtain u where u: "a @ b1 = u @ ''</li>'' @ [LF]" unfolding suffix_def by blast
    have "a @ b1 = (u @ ''</l'') @ (''i>'' @ [LF])" unfolding u by simp
    then have s3: "suffix (''i>'' @ [LF]) (a @ b1)" unfolding suffix_def by blast
    have "a @ b1 = (u @ ''</li'') @ (''>'' @ [LF])" unfolding u by simp
    then have s2: "suffix (''>'' @ [LF]) (a @ b1)" unfolding suffix_def by blast
    have "a @ b1 = (u @ ''</li>'') @ [LF]" unfolding u by simp
    then have s1: "suffix [LF] (a @ b1)" unfolding suffix_def by blast
    have "0 < length b1" using assms(3) by simp
    then consider "3 \<le> length b1" | "length b1 = 2" | "length b1 = 1" by linarith
    then show False
    proof cases
      case 1
      have "suffix (''i>'' @ [LF]) b1" using s3 by (rule suffix_fits) (use 1 in simp)
      then obtain v where "b1 = v @ ''i>'' @ [LF]" unfolding suffix_def by blast
      then have "sublist ''i>'' b1" by (metis sublist_appendI)
      then show False using ni by simp
    next
      case 2
      then have "b1 = ''>'' @ [LF]" using s2 by (intro suffix_fits_eq [of _ a]) simp_all
      then show False using hd by simp
    next
      case 3
      then have "b1 = [LF]" using s1 by (intro suffix_fits_eq [of _ a]) simp_all
      then show False using hd by (simp add: LF_def)
    qed
  qed
qed

lemma tight_no_match_inside:
  assumes "tight b" and "k < length b"
  shows "matchList (drop k (b @ rest)) = None"
proof (rule ccontr)
  assume "matchList (drop k (b @ rest)) \<noteq> None"
  then have "prefix ''<li>'' (drop k (b @ rest))" by (rule matchList_prefix)
  then obtain t where t: "drop k (b @ rest) = ''<li>'' @ t" by (auto simp: prefix_def)
  have d: "drop k (b @ rest) = drop k b @ rest" using assms(2) by simp
  show False
  proof (cases "Suc k < length b")
    case True
    have "drop k b = b ! k # b ! Suc k # drop (Suc (Suc k)) b"
      using True by (simp add: Cons_nth_drop_Suc Suc_lessD)
    then have "b ! k = CHR ''<''" "b ! Suc k = CHR ''l''" using t d by simp_all
    then have "sublist ''<l'' b" using sublist_pair [OF True] by simp
    then show False using assms(1) by (simp add: tight_def)
  next
    case False
    then have k: "Suc k = length b" using assms(2) by simp
    then have "drop k b = [last b]"
      using assms(2) by (metis Cons_nth_drop_Suc drop_all last_conv_nth le_refl length_greater_0_conv
          diff_Suc_1 gr_implies_not0 list.size(3))
    then have "last b = CHR ''<''" using t d by simp
    then show False using assms(1) by (simp add: tight_def)
  qed
qed

lemma tight_survives_lists:
  "tight b \<Longrightarrow> sublist b z \<Longrightarrow> sublist b (replaceAll matchList z)"
proof (induction "length z" arbitrary: z rule: less_induct)
  case less
  note tb = less.prems(1)
  have bne: "b \<noteq> []" using tb by (simp add: tight_def)
  show ?case
  proof (cases "prefix b z")
    case True
    then obtain rest where z: "z = b @ rest" by (auto simp: prefix_def)
    have "replaceAll matchList (b @ rest) = b @ replaceAll matchList rest"
      using tight_no_match_inside [OF tb] by (rule replaceAll_skip)
    then show ?thesis using z by simp
  next
    case False
    from less.prems(2) obtain a c where zabc: "z = a @ b @ c" by (auto simp: sublist_def)
    have ane: "a \<noteq> []" using False zabc by (auto simp: prefix_def)
    have zne: "z \<noteq> []" using zabc bne by simp
    then obtain x xs where zx: "z = x # xs" by (cases z) simp_all
    have "sublist b xs" using less.prems(2) False zx by (simp add: sublist_Cons_right)
    show ?thesis
    proof (cases "matchList z")
      case None
      then have "replaceAll matchList z = x # replaceAll matchList xs" using zx by simp
      moreover have "sublist b (replaceAll matchList xs)"
        using less.hyps [of xs] tb \<open>sublist b xs\<close> zx by simp
      ultimately show ?thesis by (simp add: sublist_Cons_right)
    next
      case (Some m)
      define n where "n = matchItems z"
      have n0: "0 < n" and rep: "m = (''<ul>'' @ take n z @ ''</ul>'', n)"
        using Some by (auto simp: matchList_def Let_def n_def split: if_splits)
      from matchItems_suffix [of z] n0 have nl: "n \<le> length z"
        and suf: "suffix ''</li>'' (take n z) \<or> suffix (''</li>'' @ [LF]) (take n z)"
        by (simp_all add: n_def)
      have out: "replaceAll matchList z
          = (''<ul>'' @ take n z @ ''</ul>'') @ replaceAll matchList (drop n z)"
        using Some rep n0 zne by (intro replaceAll_match) simp_all
      consider "length a + length b \<le> n" | "n \<le> length a"
        | "length a < n" "n < length a + length b" by linarith
      then show ?thesis
      proof cases
        case 1
        then have "take n z = a @ b @ take (n - length a - length b) c" using zabc by simp
        then have "sublist b (take n z)" by (metis sublist_appendI)
        then have "sublist b (''<ul>'' @ take n z @ ''</ul>'')"
          by (metis sublist_append)
        then show ?thesis unfolding out by (metis sublist_append)
      next
        case 2
        then have "drop n z = drop n a @ b @ c" using zabc by simp
        then have "sublist b (drop n z)" by (metis sublist_appendI)
        moreover have "length (drop n z) < length z" using n0 zne by simp
        ultimately have "sublist b (replaceAll matchList (drop n z))"
          using less.hyps tb by blast
        then show ?thesis unfolding out by (metis sublist_append)
      next
        case 3
        define j where "j = n - length a"
        have j: "0 < j" "j < length b" using 3 by (simp_all add: j_def)
        have "take n z = a @ take j b" using zabc 3 by (simp add: j_def)
        moreover have "b = take j b @ drop j b" by simp
        moreover have "take j b \<noteq> []" using j bne by simp
        ultimately have False using tb suf by (metis tight_no_split)
        then show ?thesis ..
      qed
    qed
  qed
qed

subsection \<open>The rendered code\<close>

lemma dollar_free_block: "CHR ''$'' \<notin> set code \<Longrightarrow> \<not> dollarPattern (codeBlock code)"
  using codeBlock_no_dollar [of code] dollarPattern_dollar [of "codeBlock code"] by blast

text \<open>
  The two ways in which the restoration damages a block. The block is the replacement
  text of a \<open>replace\<close> with a string pattern, so a replacement pattern in it is expanded
  (the escaping turns \<open>$<\<close> into \<open>$&lt;\<close>, which holds one); and a block that holds the
  placeholder of a later block receives that block.
\<close>

lemma dollar_pattern_expanded:
  "markdownToHtml (fence @ ''a$<b'' @ fence) = ''<pre><code>a__CODE_BLOCK_0__lt;b</code></pre>''"
  by code_simp

lemma placeholder_in_code_replaced:
  "markdownToHtml (fence @ ''__CODE_BLOCK_1__'' @ fence @ fence @ ''b'' @ fence)
     = ''<pre><code><pre><code>b</code></pre></code></pre>__CODE_BLOCK_1__''"
  by code_simp

text \<open>
  C1 as stated fails: the content of a fenced block is not reproduced byte for byte. The
  callback escapes \<open>code.trim()\<close>, so the white space at both ends of the content is
  dropped, and with it the indentation of the first line of the code.
\<close>

theorem fenced_code_is_trimmed:
  "fenceCaptures (fence @ [LF] @ ''  x'' @ [LF] @ ''y'' @ [LF] @ fence)
     = [[LF] @ ''  x'' @ [LF] @ ''y'' @ [LF]]
   \<and> markdownToHtml (fence @ [LF] @ ''  x'' @ [LF] @ ''y'' @ [LF] @ fence)
     = ''<pre><code>x'' @ [LF] @ ''y</code></pre>''
   \<and> \<not> sublist (escapeHtml ([LF] @ ''  x'' @ [LF] @ ''y'' @ [LF]))
         (markdownToHtml (fence @ [LF] @ ''  x'' @ [LF] @ ''y'' @ [LF] @ fence))
   \<and> \<not> sublist ''  x'' (markdownToHtml (fence @ [LF] @ ''  x'' @ [LF] @ ''y'' @ [LF] @ fence))"
  by code_simp

text \<open>
  C1, amended: for every document and every text \<open>code\<close> captured between two fences, the
  rendered document holds the block \<open><pre><code>\<close>, the escaped \<open>code.trim()\<close>,
  \<open></code></pre>\<close> as one piece, whatever markdown syntax the code and the document
  hold, provided that the block holds no replacement pattern and the code does not hold
  the stem \<open>__CODE_BLOCK_\<close> of the placeholders.
\<close>

theorem fenced_code_reproduced:
  assumes "code \<in> set (fenceCaptures markdown)"
    and "\<not> dollarPattern (codeBlock code)"
    and "\<not> sublist ''__CODE_BLOCK_'' code"
  shows "sublist (''<pre><code>'' @ escapeHtml (trim code) @ ''</code></pre>'') (markdownToHtml markdown)"
proof -
  obtain text' codeBlocks where e: "extractCodeBlocks 0 markdown = (text', codeBlocks)"
    by (cases "extractCodeBlocks 0 markdown")
  define ps where "ps = map placeholder [0 ..< 0 + length codeBlocks]"
  define html where "html = joinLF (map wrapPara (splitParas
              (mapLines numberLine
              (mapLines bulletLine
              (replaceAll matchInlineCode
              (replaceAll matchItalic
              (replaceAll matchBold
              (mapLines hrLine
              (mapLines h1Line
              (mapLines h2Line
              (mapLines h3Line text')))))))))))"
  have bs: "codeBlocks = map codeBlock (fenceCaptures markdown)"
    using extract_fenceCaptures [of 0 markdown] e by simp
  have "inOrder ps text'" using extract_inOrder [of 0 markdown] e by (simp add: ps_def)
  moreover have "\<forall>p \<in> set ps. isPlaceholder p"
    unfolding ps_def by (rule placeholders_isPlaceholder)
  ultimately have "inOrder ps html" unfolding html_def by (intro inOrder_stages)
  then have "inOrder (map placeholder [0 ..< 0 + length codeBlocks]) html" by (simp add: ps_def)
  moreover have "codeBlock code \<in> set codeBlocks" using assms(1) bs by simp
  moreover have "\<forall>i. \<not> sublist (placeholder i) (escapeHtml (trim code))"
    using placeholder_not_in_code [OF assms(3)] by simp
  ultimately have "sublist (codeBlock code) (restoreCodeBlocks 0 codeBlocks html)"
    using assms(2) by (intro block_restored)
  then have "sublist (codeBlock code) (replaceAll matchList (restoreCodeBlocks 0 codeBlocks html))"
    using codeBlock_tight by (intro tight_survives_lists)
  moreover have "markdownToHtml markdown = replaceAll matchList (restoreCodeBlocks 0 codeBlocks html)"
    by (simp add: markdownToHtml_def e html_def)
  ultimately show ?thesis by (simp add: codeBlock_def)
qed

theorem fenced_code_reproduced_witness:
  "''**bold** < $x && *y*''
     \<in> set (fenceCaptures (''# T'' @ [LF, LF] @ fence @ ''**bold** < $x && *y*'' @ fence @ [LF, LF] @ ''* item''))
   \<and> \<not> dollarPattern (codeBlock ''**bold** < $x && *y*'')
   \<and> \<not> sublist ''__CODE_BLOCK_'' ''**bold** < $x && *y*''
   \<and> sublist ''<pre><code>**bold** &lt; $x &amp;&amp; *y*</code></pre>''
        (markdownToHtml (''# T'' @ [LF, LF] @ fence @ ''**bold** < $x && *y*'' @ fence @ [LF, LF] @ ''* item''))"
proof -
  have a: "''**bold** < $x && *y*''
     \<in> set (fenceCaptures (''# T'' @ [LF, LF] @ fence @ ''**bold** < $x && *y*'' @ fence @ [LF, LF] @ ''* item''))"
    by code_simp
  have b: "\<not> dollarPattern (codeBlock ''**bold** < $x && *y*'')" by code_simp
  have c: "\<not> sublist ''__CODE_BLOCK_'' ''**bold** < $x && *y*''" by code_simp
  have d: "''<pre><code>'' @ escapeHtml (trim ''**bold** < $x && *y*'') @ ''</code></pre>''
      = ''<pre><code>**bold** &lt; $x &amp;&amp; *y*</code></pre>''"
    by code_simp
  from fenced_code_reproduced [OF a b c] d
  have "sublist ''<pre><code>**bold** &lt; $x &amp;&amp; *y*</code></pre>''
        (markdownToHtml (''# T'' @ [LF, LF] @ fence @ ''**bold** < $x && *y*'' @ fence @ [LF, LF] @ ''* item''))"
    by simp
  then show ?thesis using a b c by blast
qed

end
